theory Spec2Isabelle
  imports Main "HOL-Library.Word"
begin

section \<open>The host's data: R strings, character vectors, integers\<close>

text \<open>
  The three operators of \<^verbatim>\<open>src/join.cpp\<close> (\<^verbatim>\<open>stri_dup\<close>, \<^verbatim>\<open>stri_join2\<close>,
  \<^verbatim>\<open>stri_flatten\<close>) work on R character vectors. A \<^verbatim>\<open>CHARSXP\<close> is a byte string
  with an encoding mark; \<^verbatim>\<open>NA_STRING\<close> is the value \<open>None\<close>. Bytes are \<open>char\<close>s
  (8 bits), so \<open>length\<close> counts bytes as \<^verbatim>\<open>LENGTH\<close> does.
\<close>

datatype cetype = CE_NATIVE | CE_UTF8 | CE_LATIN1 | CE_BYTES

record charsxp =
  chars :: string
  enc :: cetype

type_synonym strsxp = "charsxp option list"

text \<open>
  What the C++ leaves undefined is a value of the model: signed arithmetic of
  \<^verbatim>\<open>R_len_t\<close> (a 32-bit \<^verbatim>\<open>int\<close>) that leaves the range, and a copy or a read that
  leaves its buffer.
\<close>

datatype error = IntOverflow | OutOfBounds

definition ebind :: "error + 'a \<Rightarrow> ('a \<Rightarrow> error + 'b) \<Rightarrow> error + 'b" where
  "ebind m f = (case m of Inl e \<Rightarrow> Inl e | Inr x \<Rightarrow> f x)"

definition INT_MAX :: int where
  "INT_MAX = 2147483647"

definition INT_MIN :: int where
  "INT_MIN = - 2147483648"

definition int32 :: "int \<Rightarrow> error + int" where
  "int32 x = (if INT_MIN \<le> x \<and> x \<le> INT_MAX then Inr x else Inl IntOverflow)"

text \<open>R's missing integer is the least 32-bit value.\<close>

definition NA_INTEGER :: "32 word" where
  "NA_INTEGER = 0x80000000"

text \<open>
  \<^verbatim>\<open>memcpy(buf + off, src, n)\<close> on a buffer held as a list, and
  \<^verbatim>\<open>mkCharLenCE(buf, n, ce)\<close>, which reads the first \<open>n\<close> bytes of \<open>buf\<close>.
  \<^verbatim>\<open>mkCharLen(buf, n)\<close> marks the string as native.
\<close>

definition memcpy :: "string \<Rightarrow> int \<Rightarrow> string \<Rightarrow> int \<Rightarrow> error + string" where
  "memcpy buf off src n =
     (if 0 \<le> off \<and> 0 \<le> n \<and> nat n \<le> length src \<and> nat off + nat n \<le> length buf
      then Inr (take (nat off) buf @ take (nat n) src @ drop (nat off + nat n) buf)
      else Inl OutOfBounds)"

definition mkCharLenCE :: "string \<Rightarrow> int \<Rightarrow> cetype \<Rightarrow> error + charsxp" where
  "mkCharLenCE buf n ce =
     (if 0 \<le> n \<and> nat n \<le> length buf
      then Inr \<lparr>chars = take (nat n) buf, enc = ce\<rparr>
      else Inl OutOfBounds)"

definition mkCharLen :: "string \<Rightarrow> int \<Rightarrow> error + charsxp" where
  "mkCharLen buf n = mkCharLenCE buf n CE_NATIVE"

text \<open>\<^verbatim>\<open>allocVector(STRSXP, n)\<close>: \<open>n\<close> slots, each the blank string.\<close>

definition R_BlankString :: charsxp where
  "R_BlankString = \<lparr>chars = [], enc = CE_NATIVE\<rparr>"

definition allocVector :: "nat \<Rightarrow> strsxp" where
  "allocVector n = replicate n (Some R_BlankString)"

text \<open>\<^verbatim>\<open>SET_STRING_ELT(v, i, x)\<close>; an index outside the vector is an error.\<close>

definition SET_STRING_ELT :: "strsxp \<Rightarrow> nat \<Rightarrow> charsxp option \<Rightarrow> error + strsxp" where
  "SET_STRING_ELT v i x = (if i < length v then Inr (v[i := x]) else Inl OutOfBounds)"

text \<open>
  \<^verbatim>\<open>new char[n]\<close> and \<^verbatim>\<open>R_alloc(n, 1)\<close> give \<open>n\<close> bytes that nothing has written:
  their content is the parameter \<open>junk\<close>.
\<close>

definition new_chars :: "(nat \<Rightarrow> char) \<Rightarrow> int \<Rightarrow> string" where
  "new_chars junk n = map junk [0..<nat n]"

section \<open>Loops\<close>

text \<open>
  \<^verbatim>\<open>for (i = 0; i < n; ++i) body\<close> is \<open>for_each [0..<n] body\<close>: the body runs on
  the indices in turn and the first undefined step ends the run.
\<close>

fun for_each :: "nat list \<Rightarrow> (nat \<Rightarrow> 's \<Rightarrow> error + 's) \<Rightarrow> 's \<Rightarrow> error + 's" where
  "for_each [] body st = Inr st"
| "for_each (i # is) body st =
     (case body i st of Inl e \<Rightarrow> Inl e | Inr st' \<Rightarrow> for_each is body st')"

section \<open>The recycling rule and the UTF-8 container\<close>

text \<open>
  Modelled from the spec: \<^verbatim>\<open>stri__recycling_rule\<close> is declared in \<^verbatim>\<open>stringi.h\<close> and
  its body is not under \<^verbatim>\<open>src/\<close>. Spec 4.5: the broadcast length is the greatest
  operand length, and 0 when an operand has length 0. Its \<^verbatim>\<open>RECYCLING_RULE\<close>
  warning changes no value and is left out.
\<close>

definition stri__recycling_rule :: "nat \<Rightarrow> nat \<Rightarrow> nat" where
  "stri__recycling_rule n1 n2 = (if n1 = 0 \<or> n2 = 0 then 0 else max n1 n2)"

text \<open>
  Modelled from the spec: the class \<^verbatim>\<open>StriContainerUTF8\<close> is declared in
  \<^verbatim>\<open>stringi.h\<close>, not under \<^verbatim>\<open>src/\<close>. Spec 4.1: a view of a character vector \<open>s\<close>
  whose index \<open>i\<close> stands for the element \<open>i mod length s\<close>; \<open>isNA\<close> is the null
  test, \<open>get\<close> the element's bytes in UTF-8, and two indices have the same
  \<open>identity\<close> exactly when they stand for the same element (the C++ compares the
  addresses of the container's \<^verbatim>\<open>String8\<close> objects). The conversion to UTF-8 is
  the parameter \<open>conv\<close>. The operators call \<open>get\<close> only where \<open>isNA\<close> is false.
\<close>

definition isNA :: "strsxp \<Rightarrow> nat \<Rightarrow> bool" where
  "isNA s i = (s ! (i mod length s) = None)"

definition get :: "(charsxp \<Rightarrow> string) \<Rightarrow> strsxp \<Rightarrow> nat \<Rightarrow> string" where
  "get conv s i = (case s ! (i mod length s) of None \<Rightarrow> [] | Some x \<Rightarrow> conv x)"

definition identity :: "strsxp \<Rightarrow> nat \<Rightarrow> nat" where
  "identity s i = i mod length s"

section \<open>\<^verbatim>\<open>stri_dup\<close>\<close>

text \<open>Step 1, the body of the sizing loop (lines 54 to 61).\<close>

definition dup_bufsize_body ::
    "(charsxp \<Rightarrow> string) \<Rightarrow> strsxp \<Rightarrow> 32 word list \<Rightarrow> nat \<Rightarrow> int \<Rightarrow> error + int" where
  "dup_bufsize_body conv s c i bufsize =
     (if isNA s i \<or> c ! (i mod length c) = NA_INTEGER then Inr bufsize
      else ebind (int32 (sint (c ! (i mod length c)) * int (length (get conv s i))))
             (\<lambda>cursize. Inr (if cursize > bufsize then cursize else bufsize)))"

text \<open>
  The copy loop of lines 99 to 101. It is entered with \<open>0 < cur_length\<close> only
  (line 84 has left the iteration otherwise), which is why it ends; the
  condition is repeated in the model to make the recursion total.
\<close>

function dup_paste :: "string \<Rightarrow> int \<Rightarrow> int \<Rightarrow> string \<Rightarrow> int \<Rightarrow> error + string \<times> int" where
  "dup_paste cur_string cur_length max_index buf last_index =
     (if last_index < max_index \<and> 0 < cur_length then
        (case memcpy buf last_index cur_string cur_length of
           Inl e \<Rightarrow> Inl e
         | Inr buf' \<Rightarrow>
            (case int32 (last_index + cur_length) of
               Inl e \<Rightarrow> Inl e
             | Inr last_index' \<Rightarrow> dup_paste cur_string cur_length max_index buf' last_index'))
      else Inr (buf, last_index))"
  by pat_completeness auto
termination
  by (relation "measure (\<lambda>(cs, cl, mi, b, li). nat (mi - li))")
     (auto simp: int32_def split: if_splits)

declare dup_paste.simps [simp del]

text \<open>
  The state of the emission loop: the result vector, the scratch buffer, and the
  two variables of the buffer reuse. \<open>last_string\<close> is the identity of the
  string whose copies the buffer holds (\<open>None\<close> for \<^verbatim>\<open>NULL\<close>).
\<close>

type_synonym dup_state = "strsxp \<times> string \<times> nat option \<times> int"

text \<open>Step 3, the body of the emission loop (lines 78 to 105).\<close>

fun dup_body ::
    "(charsxp \<Rightarrow> string) \<Rightarrow> strsxp \<Rightarrow> 32 word list \<Rightarrow> nat \<Rightarrow> dup_state \<Rightarrow> error + dup_state" where
  "dup_body conv s c i (ret, buf, last_string, last_index) =
     (let cur_dups = sint (c ! (i mod length c)) in
      if isNA s i \<or> c ! (i mod length c) = NA_INTEGER \<or> cur_dups < 0
      then ebind (SET_STRING_ELT ret i None) (\<lambda>ret'.
             Inr (ret', buf, last_string, last_index))
      else
        let cur_string = get conv s i;
            cur_length = int (length cur_string)
        in
        if cur_dups \<le> 0 \<or> cur_length \<le> 0
        then ebind (mkCharLen [] 0) (\<lambda>x.
             ebind (SET_STRING_ELT ret i (Some x)) (\<lambda>ret'.
               Inr (ret', buf, last_string, last_index)))
        else
          let (last_string1, last_index1) =
                (if Some (identity s i) \<noteq> last_string then (Some (identity s i), 0)
                 else (last_string, last_index))
          in
          ebind (int32 (cur_length * cur_dups)) (\<lambda>max_index.
          ebind (dup_paste cur_string cur_length max_index buf last_index1)
            (\<lambda>(buf', last_index').
          ebind (mkCharLenCE buf' max_index CE_UTF8) (\<lambda>x.
          ebind (SET_STRING_ELT ret i (Some x)) (\<lambda>ret'.
            Inr (ret', buf', last_string1, last_index'))))))"

text \<open>
  The whole function. The iterator of the emission loop (\<^verbatim>\<open>vectorize_init\<close>,
  \<^verbatim>\<open>vectorize_next\<close>, \<^verbatim>\<open>vectorize_end\<close>) belongs to the container and is not under
  \<^verbatim>\<open>src/\<close>; spec 5 leaves the order of the walk open, so the order is the
  parameter \<open>ord\<close>, the list of the indices visited.
\<close>

definition stri_dup ::
    "(charsxp \<Rightarrow> string) \<Rightarrow> (nat \<Rightarrow> char) \<Rightarrow> nat list \<Rightarrow> strsxp \<Rightarrow> 32 word list
       \<Rightarrow> error + strsxp" where
  "stri_dup conv junk ord s c =
     (let nc = length c;
          nmax = stri__recycling_rule (length s) nc
      in
      if nmax \<le> 0 then Inr (allocVector 0)
      else
        ebind (for_each [0..<nmax] (dup_bufsize_body conv s c) 0) (\<lambda>bufsize.
        ebind (int32 (bufsize + 1)) (\<lambda>n.
        ebind (for_each ord (dup_body conv s c)
                 (allocVector nmax, new_chars junk n, None, 0))
          (\<lambda>(ret, buf, last_string, last_index). Inr ret))))"


subsection \<open>\<^verbatim>\<open>stri_dup\<close> on 32-bit words\<close>

text \<open>
  A product of \<^verbatim>\<open>R_len_t\<close> that leaves the range is undefined in C++, and the
  definitions above stop there. The machine goes on with the low 32 bits of the
  product. The definitions below are the same lines of \<^verbatim>\<open>stri_dup\<close> with
  \<^verbatim>\<open>R_len_t\<close> held as a \<open>32 word\<close>, read as a signed number by \<open>sint\<close>: \<open>*\<close> and
  \<open>+\<close> wrap. Step 1, the body of the sizing loop (lines 54 to 61):
\<close>

definition dup_bufsize_body_w ::
    "(charsxp \<Rightarrow> string) \<Rightarrow> strsxp \<Rightarrow> 32 word list \<Rightarrow> nat \<Rightarrow> 32 word \<Rightarrow> error + 32 word" where
  "dup_bufsize_body_w conv s c i bufsize =
     (if isNA s i \<or> c ! (i mod length c) = NA_INTEGER then Inr bufsize
      else
        let cursize = c ! (i mod length c) * word_of_nat (length (get conv s i)) in
        Inr (if sint cursize > sint bufsize then cursize else bufsize))"

text \<open>
  The copy loop of lines 99 to 101, entered with \<open>0 < cur_length\<close> only, as
  above. A copy that does not fit its buffer ends the run, so the loop ends
  even where \<^verbatim>\<open>last_index\<close> wraps: the index is then negative and the next copy
  does not fit.
\<close>

function dup_paste_w ::
    "string \<Rightarrow> 32 word \<Rightarrow> 32 word \<Rightarrow> string \<Rightarrow> 32 word \<Rightarrow> error + string \<times> 32 word" where
  "dup_paste_w cur_string cur_length max_index buf last_index =
     (if sint last_index < sint max_index \<and> 0 < sint cur_length then
        (case memcpy buf (sint last_index) cur_string (sint cur_length) of
           Inl e \<Rightarrow> Inl e
         | Inr buf' \<Rightarrow>
             dup_paste_w cur_string cur_length max_index buf' (last_index + cur_length))
      else Inr (buf, last_index))"
  by pat_completeness auto
termination
proof (relation "measure (\<lambda>(cs, cl, mi, b, li).
          if sint li < 0 then 0 else 1 + (length b - nat (sint li)))")
  show "wf (measure (\<lambda>(cs, cl, mi, b, li).
          if sint li < 0 then 0 else 1 + (length b - nat (sint li))))"
    by simp
next
  fix cur_string :: string and cur_length max_index :: "32 word" and buf :: string
    and last_index :: "32 word" and buf' :: string
  assume go: "sint last_index < sint max_index \<and> 0 < sint cur_length"
    and cp: "memcpy buf (sint last_index) cur_string (sint cur_length) = Inr buf'"
  from cp have li: "0 \<le> sint last_index"
    and fit: "nat (sint last_index) + nat (sint cur_length) \<le> length buf"
    and len: "length buf' = length buf"
    by (auto simp: memcpy_def split: if_splits)
  from go have cl: "0 \<le> sint cur_length" by simp
  let ?sum = "sint last_index + sint cur_length"
  have next_index: "sint (last_index + cur_length) = ?sum \<or> sint (last_index + cur_length) < 0"
  proof (cases "?sum < 2 ^ 31")
    case True
    with li cl have "signed_take_bit 31 ?sum = ?sum"
      by (intro signed_take_bit_int_eq_self) simp_all
    then show ?thesis by (simp add: sint_word_ariths)
  next
    case False
    have lt: "sint last_index < 2147483648" "sint cur_length < 2147483648"
      using sint_lt [of last_index] sint_lt [of cur_length] by simp_all
    from False have "signed_take_bit 31 ?sum \<le> ?sum - 2 ^ Suc 31"
      by (intro signed_take_bit_int_less_eq) simp
    then have "signed_take_bit 31 ?sum \<le> ?sum - 4294967296"
      by simp
    with lt have "signed_take_bit 31 ?sum < 0" by linarith
    then have "sint (last_index + cur_length) < 0" by (simp only: sint_word_ariths) simp
    then show ?thesis ..
  qed
  then show "((cur_string, cur_length, max_index, buf', last_index + cur_length),
         (cur_string, cur_length, max_index, buf, last_index))
        \<in> measure (\<lambda>(cs, cl, mi, b, li).
          if sint li < 0 then 0 else 1 + (length b - nat (sint li)))"
    using li fit len go by auto
qed

declare dup_paste_w.simps [simp del]

text \<open>Step 3, the body of the emission loop (lines 78 to 105).\<close>

type_synonym dup_state_w = "strsxp \<times> string \<times> nat option \<times> 32 word"

fun dup_body_w ::
    "(charsxp \<Rightarrow> string) \<Rightarrow> strsxp \<Rightarrow> 32 word list \<Rightarrow> nat \<Rightarrow> dup_state_w
       \<Rightarrow> error + dup_state_w" where
  "dup_body_w conv s c i (ret, buf, last_string, last_index) =
     (let cur_dups = c ! (i mod length c) in
      if isNA s i \<or> cur_dups = NA_INTEGER \<or> sint cur_dups < 0
      then ebind (SET_STRING_ELT ret i None) (\<lambda>ret'.
             Inr (ret', buf, last_string, last_index))
      else
        let cur_string = get conv s i;
            cur_length = word_of_nat (length cur_string) :: 32 word
        in
        if sint cur_dups \<le> 0 \<or> sint cur_length \<le> 0
        then ebind (mkCharLen [] 0) (\<lambda>x.
             ebind (SET_STRING_ELT ret i (Some x)) (\<lambda>ret'.
               Inr (ret', buf, last_string, last_index)))
        else
          let (last_string1, last_index1) =
                (if Some (identity s i) \<noteq> last_string then (Some (identity s i), 0)
                 else (last_string, last_index));
              max_index = cur_length * cur_dups
          in
          ebind (dup_paste_w cur_string cur_length max_index buf last_index1)
            (\<lambda>(buf', last_index').
          ebind (mkCharLenCE buf' (sint max_index) CE_UTF8) (\<lambda>x.
          ebind (SET_STRING_ELT ret i (Some x)) (\<lambda>ret'.
            Inr (ret', buf', last_string1, last_index')))))"

text \<open>
  The whole function. \<^verbatim>\<open>new char[bufsize+1]\<close> with a negative size (met only when
  \<^verbatim>\<open>bufsize + 1\<close> itself wraps) does not give a buffer.
\<close>

definition stri_dup_w ::
    "(charsxp \<Rightarrow> string) \<Rightarrow> (nat \<Rightarrow> char) \<Rightarrow> nat list \<Rightarrow> strsxp \<Rightarrow> 32 word list
       \<Rightarrow> error + strsxp" where
  "stri_dup_w conv junk ord s c =
     (let nc = length c;
          nmax = stri__recycling_rule (length s) nc
      in
      if nmax \<le> 0 then Inr (allocVector 0)
      else
        ebind (for_each [0..<nmax] (dup_bufsize_body_w conv s c) 0) (\<lambda>bufsize.
          if sint (bufsize + 1) < 0 then Inl IntOverflow
          else
            ebind (for_each ord (dup_body_w conv s c)
                     (allocVector nmax, new_chars junk (sint (bufsize + 1)), None, 0))
              (\<lambda>(ret, buf, last_string, last_index). Inr ret)))"

section \<open>\<^verbatim>\<open>stri_join2\<close>\<close>

text \<open>
  \<^verbatim>\<open>for (j = i; j < nsm; j += ns1) body\<close>. The increment is arithmetic of
  \<^verbatim>\<open>int\<close>. The loop is reached with \<open>0 < ns1\<close> only (line 142 has returned
  otherwise); the condition is repeated to make the recursion total.
\<close>

function for_stride ::
    "nat \<Rightarrow> nat \<Rightarrow> nat \<Rightarrow> (nat \<Rightarrow> 's \<Rightarrow> error + 's) \<Rightarrow> 's \<Rightarrow> error + 's" where
  "for_stride j n step body st =
     (if j < n \<and> 0 < step then
        (case body j st of
           Inl e \<Rightarrow> Inl e
         | Inr st' \<Rightarrow>
            (case int32 (int j + int step) of
               Inl e \<Rightarrow> Inl e
             | Inr j' \<Rightarrow> for_stride (nat j') n step body st'))
      else Inr st)"
  by pat_completeness auto
termination
  by (relation "measure (\<lambda>(j, n, step, body, st). n - j)")
     (auto simp: int32_def split: if_splits)

declare for_stride.simps [simp del]

text \<open>\<^verbatim>\<open>LENGTH\<close> and \<^verbatim>\<open>CHAR\<close> of a \<^verbatim>\<open>CHARSXP\<close> (both names are taken in HOL).\<close>

definition LENGTH_sxp :: "charsxp \<Rightarrow> int" where
  "LENGTH_sxp x = int (length (chars x))"

definition CHAR_sxp :: "charsxp \<Rightarrow> string" where
  "CHAR_sxp x = chars x"

text \<open>The sizing pass (lines 146 to 159): the inner and the outer loop body.\<close>

definition join2_maxsize_inner :: "strsxp \<Rightarrow> int \<Rightarrow> nat \<Rightarrow> int \<Rightarrow> error + int" where
  "join2_maxsize_inner s2 cnsl j maxsize =
     (case s2 ! (j mod length s2) of
        None \<Rightarrow> Inr maxsize
      | Some curs2 \<Rightarrow>
          ebind (int32 (cnsl + LENGTH_sxp curs2)) (\<lambda>sz.
            Inr (if sz > maxsize then sz else maxsize)))"

definition join2_maxsize_body :: "strsxp \<Rightarrow> strsxp \<Rightarrow> nat \<Rightarrow> nat \<Rightarrow> int \<Rightarrow> error + int" where
  "join2_maxsize_body s1 s2 nsm i maxsize =
     (case s1 ! i of
        None \<Rightarrow> Inr maxsize
      | Some curs1 \<Rightarrow>
          for_stride i nsm (length s1) (join2_maxsize_inner s2 (LENGTH_sxp curs1)) maxsize)"

text \<open>The loop of lines 167 to 173, run when \<open>maxsize\<close> is 0.\<close>

definition join2_blank_body :: "strsxp \<Rightarrow> strsxp \<Rightarrow> nat \<Rightarrow> strsxp \<Rightarrow> error + strsxp" where
  "join2_blank_body s1 s2 i e =
     (if s1 ! (i mod length s1) = None \<or> s2 ! (i mod length s2) = None
      then SET_STRING_ELT e i None
      else ebind (mkCharLen [] 0) (\<lambda>x. SET_STRING_ELT e i (Some x)))"

text \<open>
  The emission pass (lines 180 to 211). The pointer \<^verbatim>\<open>buf2\<close> is held as its
  offset from \<^verbatim>\<open>buf\<close>: \<^verbatim>\<open>buf2 == buf\<close> is \<open>buf2 = 0\<close>.
\<close>

fun join2_na_inner :: "nat \<Rightarrow> strsxp \<times> string \<Rightarrow> error + strsxp \<times> string" where
  "join2_na_inner j (e, buf) = ebind (SET_STRING_ELT e j None) (\<lambda>e'. Inr (e', buf))"

fun join2_inner ::
    "strsxp \<Rightarrow> charsxp \<Rightarrow> nat \<Rightarrow> strsxp \<times> string \<times> int \<Rightarrow> error + strsxp \<times> string \<times> int" where
  "join2_inner s2 ss1 j (e, buf, buf2) =
     (let si1 = CHAR_sxp ss1; sn1 = LENGTH_sxp ss1 in
      case s2 ! (j mod length s2) of
        None \<Rightarrow> ebind (SET_STRING_ELT e j None) (\<lambda>e'. Inr (e', buf, buf2))
      | Some ss2 \<Rightarrow>
          let si2 = CHAR_sxp ss2; sn2 = LENGTH_sxp ss2 in
          ebind (if sn1 \<noteq> 0 \<and> buf2 = 0
                 then ebind (memcpy buf 0 si1 sn1) (\<lambda>buf'. Inr (buf', sn1))
                 else Inr (buf, buf2)) (\<lambda>(buf_a, buf2').
          ebind (if sn2 \<noteq> 0 then memcpy buf_a buf2' si2 sn2 else Inr buf_a) (\<lambda>buf_b.
          ebind (int32 (sn1 + sn2)) (\<lambda>n.
          ebind (mkCharLen buf_b n) (\<lambda>x.
          ebind (SET_STRING_ELT e j (Some x)) (\<lambda>e'.
            Inr (e', buf_b, buf2')))))))"

fun join2_body ::
    "strsxp \<Rightarrow> strsxp \<Rightarrow> nat \<Rightarrow> nat \<Rightarrow> strsxp \<times> string \<Rightarrow> error + strsxp \<times> string" where
  "join2_body s1 s2 nsm i (e, buf) =
     (case s1 ! i of
        None \<Rightarrow> for_stride i nsm (length s1) join2_na_inner (e, buf)
      | Some ss1 \<Rightarrow>
          ebind (for_stride i nsm (length s1) (join2_inner s2 ss1) (e, buf, 0))
            (\<lambda>(e', buf', buf2). Inr (e', buf')))"

definition stri_join2 :: "(nat \<Rightarrow> char) \<Rightarrow> strsxp \<Rightarrow> strsxp \<Rightarrow> error + strsxp" where
  "stri_join2 junk s1 s2 =
     (let ns1 = length s1;
          ns2 = length s2;
          nsm = stri__recycling_rule ns1 ns2
      in
      if ns1 \<le> 0 then Inr s2
      else if ns2 \<le> 0 then Inr s1
      else
        ebind (for_each [0..<ns1] (join2_maxsize_body s1 s2 nsm) 0) (\<lambda>maxsize.
          let e = allocVector nsm in
          if maxsize \<le> 0 then for_each [0..<nsm] (join2_blank_body s1 s2) e
          else
            ebind (for_each [0..<ns1] (join2_body s1 s2 nsm) (e, new_chars junk maxsize))
              (\<lambda>(e', buf). Inr e')))"

section \<open>\<^verbatim>\<open>stri_flatten\<close>\<close>

datatype warning = MSG__COLLAPSE_EXPECTED1

text \<open>
  Modelled from the spec: \<^verbatim>\<open>stri__vector_NA_strings\<close> and
  \<^verbatim>\<open>stri__vector_empty_strings\<close> are declared in \<^verbatim>\<open>stringi.h\<close>, not under
  \<^verbatim>\<open>src/\<close>. Spec 4.4: a sequence of \<open>n\<close> nulls, and a sequence of \<open>n\<close> empty
  strings (the code asks for 0 of them: the empty sequence).
\<close>

definition stri__vector_NA_strings :: "nat \<Rightarrow> strsxp" where
  "stri__vector_NA_strings n = replicate n None"

definition stri__vector_empty_strings :: "nat \<Rightarrow> strsxp" where
  "stri__vector_empty_strings n = replicate n (Some R_BlankString)"

text \<open>
  The sizing loop (lines 369 to 376). It returns from the function at the first
  null element: the value \<open>None\<close>; otherwise it ends with \<open>Some nchar\<close>.
\<close>

fun flatten_nchar ::
    "(charsxp \<Rightarrow> string) \<Rightarrow> strsxp \<Rightarrow> int \<Rightarrow> nat list \<Rightarrow> int \<Rightarrow> error + int option" where
  "flatten_nchar conv s ncharsep [] nchar = Inr (Some nchar)"
| "flatten_nchar conv s ncharsep (i # is) nchar =
     (if isNA s i then Inr None
      else
        (case int32 (int (length (get conv s i))
                      + (if int i < int (length s) - 1 then ncharsep else 0)) of
           Inl e \<Rightarrow> Inl e
         | Inr d \<Rightarrow>
            (case int32 (nchar + d) of
               Inl e \<Rightarrow> Inl e
             | Inr nchar' \<Rightarrow> flatten_nchar conv s ncharsep is nchar')))"

text \<open>The body of the filling loop (lines 382 to 390).\<close>

fun flatten_body ::
    "(charsxp \<Rightarrow> string) \<Rightarrow> strsxp \<Rightarrow> string \<Rightarrow> int \<Rightarrow> nat \<Rightarrow> string \<times> int
       \<Rightarrow> error + string \<times> int" where
  "flatten_body conv s sepstr ncharsep i (buf, cur) =
     (let ncur = int (length (get conv s i)) in
      ebind (memcpy buf cur (get conv s i) ncur) (\<lambda>buf1.
      ebind (int32 (cur + ncur)) (\<lambda>cur1.
        if int i < int (length s) - 1 \<and> ncharsep > 0
        then ebind (memcpy buf1 cur1 sepstr ncharsep) (\<lambda>buf2.
             ebind (int32 (cur1 + ncharsep)) (\<lambda>cur2. Inr (buf2, cur2)))
        else Inr (buf1, cur1))))"

text \<open>
  The whole function: the warnings given, and the result. With more than one
  separator, the vector \<open>sep\<close> is replaced by one that holds its first element.
\<close>

definition stri_flatten ::
    "(charsxp \<Rightarrow> string) \<Rightarrow> (nat \<Rightarrow> char) \<Rightarrow> strsxp \<Rightarrow> strsxp
       \<Rightarrow> warning list \<times> (error + strsxp)" where
  "stri_flatten conv junk s sep =
     (let ns = length s;
          nsep = length sep
      in
      if ns \<le> 0 \<or> nsep \<le> 0 then ([], Inr (stri__vector_empty_strings 0))
      else
        let (warnings, sep1) =
              (if nsep > 1 then ([MSG__COLLAPSE_EXPECTED1], [sep ! 0]) else ([], sep))
        in
        if isNA sep1 0 then (warnings, Inr (stri__vector_NA_strings 1))
        else
          let ncharsep = int (length (get conv sep1 0)) in
          (case flatten_nchar conv s ncharsep [0..<ns] 0 of
             Inl e \<Rightarrow> (warnings, Inl e)
           | Inr None \<Rightarrow> (warnings, Inr (stri__vector_NA_strings 1))
           | Inr (Some nchar) \<Rightarrow>
               (warnings,
                ebind (for_each [0..<ns] (flatten_body conv s (get conv sep1 0) ncharsep)
                         (new_chars junk nchar, 0)) (\<lambda>(buf, cur).
                ebind (mkCharLenCE buf nchar CE_UTF8) (\<lambda>x.
                  SET_STRING_ELT (allocVector 1) 0 (Some x))))))"

subsection \<open>\<^verbatim>\<open>stri_flatten_nosep\<close>: the form with no separator\<close>

text \<open>
  The sizing loop (lines 295 to 302): it returns from the function at the first
  null element, as the one of \<^verbatim>\<open>stri_flatten\<close> does.
\<close>

fun flatten_nosep_nchar ::
    "(charsxp \<Rightarrow> string) \<Rightarrow> strsxp \<Rightarrow> nat list \<Rightarrow> int \<Rightarrow> error + int option" where
  "flatten_nosep_nchar conv s [] nchar = Inr (Some nchar)"
| "flatten_nosep_nchar conv s (i # is) nchar =
     (if isNA s i then Inr None
      else
        (case int32 (nchar + int (length (get conv s i))) of
           Inl e \<Rightarrow> Inl e
         | Inr nchar' \<Rightarrow> flatten_nosep_nchar conv s is nchar'))"

text \<open>The body of the filling loop (lines 308 to 310).\<close>

fun flatten_nosep_body ::
    "(charsxp \<Rightarrow> string) \<Rightarrow> strsxp \<Rightarrow> nat \<Rightarrow> string \<times> int \<Rightarrow> error + string \<times> int" where
  "flatten_nosep_body conv s i (buf, cur) =
     (let ncur = int (length (get conv s i)) in
      ebind (memcpy buf cur (get conv s i) ncur) (\<lambda>buf1.
      ebind (int32 (cur + ncur)) (\<lambda>cur1. Inr (buf1, cur1))))"

text \<open>
  The whole function (lines 285 to 322). An empty \<open>s\<close> is returned as it is.
\<close>

definition stri_flatten_nosep ::
    "(charsxp \<Rightarrow> string) \<Rightarrow> (nat \<Rightarrow> char) \<Rightarrow> strsxp \<Rightarrow> error + strsxp" where
  "stri_flatten_nosep conv junk s =
     (let ns = length s in
      if ns \<le> 0 then Inr s
      else
        (case flatten_nosep_nchar conv s [0..<ns] 0 of
           Inl e \<Rightarrow> Inl e
         | Inr None \<Rightarrow> Inr (stri__vector_NA_strings 1)
         | Inr (Some nchar) \<Rightarrow>
             ebind (for_each [0..<ns] (flatten_nosep_body conv s) (new_chars junk nchar, 0))
               (\<lambda>(buf, cur).
             ebind (mkCharLenCE buf nchar CE_UTF8) (\<lambda>x.
               SET_STRING_ELT (allocVector 1) 0 (Some x)))))"

section \<open>What the operators are compared with\<close>

text \<open>
  Duplicate as spec 4.2 words it, slot by slot from the table of rules, every
  slot written afresh: \<open>ci\<close> copies of the UTF-8 bytes of \<open>si\<close>.
\<close>

definition dup_naive_slot ::
    "(charsxp \<Rightarrow> string) \<Rightarrow> strsxp \<Rightarrow> 32 word list \<Rightarrow> nat \<Rightarrow> charsxp option" where
  "dup_naive_slot conv s c i =
     (case s ! (i mod length s) of
        None \<Rightarrow> None
      | Some si \<Rightarrow>
          let ci = c ! (i mod length c) in
          if ci = NA_INTEGER then None
          else if sint ci < 0 then None
          else if sint ci = 0 then Some \<lparr>chars = [], enc = CE_NATIVE\<rparr>
          else if length (conv si) = 0 then Some \<lparr>chars = [], enc = CE_NATIVE\<rparr>
          else Some \<lparr>chars = concat (replicate (nat (sint ci)) (conv si)), enc = CE_UTF8\<rparr>)"

definition dup_naive :: "(charsxp \<Rightarrow> string) \<Rightarrow> strsxp \<Rightarrow> 32 word list \<Rightarrow> strsxp" where
  "dup_naive conv s c =
     map (dup_naive_slot conv s c) [0..<stri__recycling_rule (length s) (length c)]"

text \<open>
  The slots the sizing loop of \<^verbatim>\<open>stri_dup\<close> looks at, and the bytes such a slot
  needs.
\<close>

definition dup_live :: "strsxp \<Rightarrow> 32 word list \<Rightarrow> nat \<Rightarrow> bool" where
  "dup_live s c i = (\<not> isNA s i \<and> c ! (i mod length c) \<noteq> NA_INTEGER)"

definition dup_need :: "(charsxp \<Rightarrow> string) \<Rightarrow> strsxp \<Rightarrow> 32 word list \<Rightarrow> nat \<Rightarrow> int" where
  "dup_need conv s c i = sint (c ! (i mod length c)) * int (length (get conv s i))"

text \<open>
  The invariant of the emission loop of \<^verbatim>\<open>stri_dup\<close>, for a scratch buffer of
  at least \<open>B\<close> bytes and a result of \<open>n\<close> slots: the buffer starts with whole
  copies of the string that \<open>last_string\<close> names, up to \<open>last_index\<close>.
\<close>

definition dup_inv ::
    "(charsxp \<Rightarrow> string) \<Rightarrow> strsxp \<Rightarrow> nat \<Rightarrow> nat \<Rightarrow> dup_state \<Rightarrow> bool" where
  "dup_inv conv s B n st =
     (case st of (r, b, ls, li) \<Rightarrow>
        length r = n \<and> B \<le> length b \<and>
        (case ls of
           None \<Rightarrow> True
         | Some k \<Rightarrow>
             (\<exists>m. li = int (m * length (get conv s k)) \<and> m * length (get conv s k) \<le> B \<and>
                  take (m * length (get conv s k)) b = concat (replicate m (get conv s k)))))"

text \<open>
  PairJoin as spec 4.3 words it: a slot is null when either element is, and
  else the bytes of the first followed by the bytes of the second. \<open>join2_need\<close>
  is the number of bytes such a slot takes.
\<close>

definition join2_slot :: "strsxp \<Rightarrow> strsxp \<Rightarrow> nat \<Rightarrow> charsxp option" where
  "join2_slot s1 s2 k =
     (case s1 ! (k mod length s1) of
        None \<Rightarrow> None
      | Some x \<Rightarrow>
         (case s2 ! (k mod length s2) of
            None \<Rightarrow> None
          | Some y \<Rightarrow> Some \<lparr>chars = chars x @ chars y, enc = CE_NATIVE\<rparr>))"

definition join2_need :: "strsxp \<Rightarrow> strsxp \<Rightarrow> nat \<Rightarrow> int" where
  "join2_need s1 s2 k =
     (case s1 ! (k mod length s1) of
        None \<Rightarrow> 0
      | Some x \<Rightarrow>
         (case s2 ! (k mod length s2) of
            None \<Rightarrow> 0
          | Some y \<Rightarrow> int (length (chars x)) + int (length (chars y))))"

text \<open>
  The indices a loop \<^verbatim>\<open>for (j = i; j < n; j += step)\<close> visits, and the invariant of
  the inner loop of \<^verbatim>\<open>stri_join2\<close>: once \<^verbatim>\<open>buf2\<close> has moved, the scratch buffer
  starts with the bytes of the first string.
\<close>

function stride :: "nat \<Rightarrow> nat \<Rightarrow> nat \<Rightarrow> nat list" where
  "stride j n step = (if j < n \<and> 0 < step then j # stride (j + step) n step else [])"
  by pat_completeness auto
termination
  by (relation "measure (\<lambda>(j, n, step). n - j)") auto

declare stride.simps [simp del]

definition join2_bufinv :: "charsxp \<Rightarrow> string \<Rightarrow> int \<Rightarrow> bool" where
  "join2_bufinv ss1 b b2 =
     (b2 = 0 \<or> (b2 = int (length (chars ss1)) \<and> take (length (chars ss1)) b = chars ss1))"


text \<open>
  Flatten as spec 4.4 words it writes, for the element \<open>i\<close>, its bytes and then
  the separator unless the element is the last.
\<close>

definition flatten_piece :: "(charsxp \<Rightarrow> string) \<Rightarrow> strsxp \<Rightarrow> string \<Rightarrow> nat \<Rightarrow> string" where
  "flatten_piece conv s sepstr i =
     get conv s i @ (if int i < int (length s) - 1 then sepstr else [])"

text \<open>
  Valid UTF-8 (RFC 3629): one to four bytes for a code point, in the shortest
  form, no surrogates, nothing above U+10FFFF.
\<close>

definition utf8_cont :: "char \<Rightarrow> bool" where
  "utf8_cont b = (0x80 \<le> (of_char b :: nat) \<and> (of_char b :: nat) \<le> 0xBF)"

fun valid_utf8 :: "string \<Rightarrow> bool" where
  "valid_utf8 [] = True"
| "valid_utf8 (b0 # bs) =
     (let n0 = of_char b0 :: nat in
      if n0 < 0x80 then valid_utf8 bs
      else if 0xC2 \<le> n0 \<and> n0 \<le> 0xDF then
        (case bs of
           b1 # r \<Rightarrow> utf8_cont b1 \<and> valid_utf8 r
         | _ \<Rightarrow> False)
      else if 0xE0 \<le> n0 \<and> n0 \<le> 0xEF then
        (case bs of
           b1 # b2 # r \<Rightarrow>
             utf8_cont b1 \<and> utf8_cont b2
             \<and> (if n0 = 0xE0 then 0xA0 \<le> (of_char b1 :: nat)
                  else if n0 = 0xED then (of_char b1 :: nat) \<le> 0x9F
                  else True)
             \<and> valid_utf8 r
         | _ \<Rightarrow> False)
      else if 0xF0 \<le> n0 \<and> n0 \<le> 0xF4 then
        (case bs of
           b1 # b2 # b3 # r \<Rightarrow>
             utf8_cont b1 \<and> utf8_cont b2 \<and> utf8_cont b3
             \<and> (if n0 = 0xF0 then 0x90 \<le> (of_char b1 :: nat)
                  else if n0 = 0xF4 then (of_char b1 :: nat) \<le> 0x8F
                  else True)
             \<and> valid_utf8 r
         | _ \<Rightarrow> False)
      else False)"

section \<open>Basic facts\<close>

lemma ebind_Inr [simp]: "ebind (Inr x) f = f x"
  by (simp add: ebind_def)

lemma ebind_Inl [simp]: "ebind (Inl e) f = Inl e"
  by (simp add: ebind_def)

lemma ebind_eq_Inr: "ebind m f = Inr y \<longleftrightarrow> (\<exists>x. m = Inr x \<and> f x = Inr y)"
  by (cases m) simp_all

lemma int32_eq_Inr: "int32 x = Inr y \<longleftrightarrow> (y = x \<and> INT_MIN \<le> x \<and> x \<le> INT_MAX)"
  by (auto simp: int32_def)

text \<open>The loop rule: an invariant indexed by the set of indices already visited.\<close>

lemma for_each_total:
  assumes "I V st"
    and "\<And>i V st. i \<in> set js \<Longrightarrow> I V st \<Longrightarrow> \<exists>st'. body i st = Inr st' \<and> I (insert i V) st'"
  shows "\<exists>st'. for_each js body st = Inr st' \<and> I (V \<union> set js) st'"
  using assms
proof (induction js arbitrary: V st)
  case Nil
  then show ?case by simp
next
  case (Cons i js)
  from Cons.prems obtain st1 where s1: "body i st = Inr st1" "I (insert i V) st1"
    by (meson list.set_intros(1))
  have "\<exists>st'. for_each js body st1 = Inr st' \<and> I (insert i V \<union> set js) st'"
    by (rule Cons.IH [OF s1(2)]) (use Cons.prems(2) in auto)
  with s1 show ?case by simp
qed

lemma concat_replicate_length: "length (concat (replicate k xs)) = k * length xs"
  by (induction k) simp_all

lemma concat_replicate_Suc: "concat (replicate (Suc m) xs) = concat (replicate m xs) @ xs"
  by (induction m) simp_all

lemma take_concat_replicate:
  "k \<le> m \<Longrightarrow> take (k * length xs) (concat (replicate m xs)) = concat (replicate k xs)"
proof -
  assume "k \<le> m"
  then have "replicate m xs = replicate k xs @ replicate (m - k) xs"
    by (simp add: replicate_add [symmetric])
  then show ?thesis
    by (simp add: concat_replicate_length)
qed

lemma memcpy_whole:
  "off + length src \<le> length buf \<Longrightarrow>
   memcpy buf (int off) src (int (length src)) =
     Inr (take off buf @ src @ drop (off + length src) buf)"
  by (simp add: memcpy_def)

lemma dup_paste_stop:
  "\<not> li < mi \<Longrightarrow> dup_paste cs cl mi b li = Inr (b, li)"
  by (subst dup_paste.simps) simp

lemma dup_paste_step:
  "li < mi \<Longrightarrow> 0 < cl \<Longrightarrow> memcpy b li cs cl = Inr b' \<Longrightarrow> int32 (li + cl) = Inr li' \<Longrightarrow>
   dup_paste cs cl mi b li = dup_paste cs cl mi b' li'"
  by (subst dup_paste.simps) simp

lemma dup_paste_total:
  assumes "0 < length cs"
    and "take (m * length cs) buf = concat (replicate m cs)"
    and "max m k * length cs \<le> length buf"
    and "int (k * length cs) \<le> INT_MAX"
  shows "\<exists>buf'. dup_paste cs (int (length cs)) (int (k * length cs)) buf (int (m * length cs))
                  = Inr (buf', int (max m k * length cs))
               \<and> length buf' = length buf
               \<and> take (max m k * length cs) buf' = concat (replicate (max m k) cs)"
  using assms
proof (induction "k - m" arbitrary: m buf)
  case 0
  then have "k \<le> m" by simp
  then have "max m k = m" by simp
  moreover have "\<not> (int (m * length cs) < int (k * length cs))"
    unfolding of_nat_less_iff using \<open>k \<le> m\<close> by (simp add: not_less mult_le_mono1)
  then have "dup_paste cs (int (length cs)) (int (k * length cs)) buf (int (m * length cs))
      = Inr (buf, int (m * length cs))"
    by (rule dup_paste_stop)
  ultimately show ?case using 0 by simp
next
  case (Suc d)
  then have mk: "m < k" by simp
  let ?L = "length cs"
  have lt: "int (m * ?L) < int (k * ?L)" using mk Suc.prems(1) by simp
  have fit: "m * ?L + ?L \<le> length buf"
  proof -
    have "Suc m * ?L \<le> k * ?L" using mk by (intro mult_le_mono1) simp
    also have "\<dots> \<le> max m k * ?L" by (intro mult_le_mono1) simp
    finally show ?thesis using Suc.prems(3) by simp
  qed
  define buf1 where "buf1 = take (m * ?L) buf @ cs @ drop (m * ?L + ?L) buf"
  have cp: "memcpy buf (int (m * ?L)) cs (int ?L) = Inr buf1"
    unfolding buf1_def by (rule memcpy_whole [OF fit])
  have len1: "length buf1 = length buf" using fit by (simp add: buf1_def)
  have nxt: "int (m * ?L) + int ?L = int (Suc m * ?L)" by simp
  have "int32 (int (Suc m * ?L)) = Inr (int (Suc m * ?L))"
  proof -
    have "Suc m * ?L \<le> k * ?L" using mk by (intro mult_le_mono1) simp
    then have "int (Suc m * ?L) \<le> INT_MAX" using Suc.prems(4) by linarith
    moreover have "INT_MIN \<le> int (Suc m * ?L)"
      unfolding INT_MIN_def by (rule order_trans [of _ 0]) simp_all
    ultimately show ?thesis by (simp add: int32_def)
  qed
  then have rng: "int32 (int (m * ?L) + int ?L) = Inr (int (Suc m * ?L))"
    by (simp only: nxt)
  have tk: "take (Suc m * ?L) buf1 = concat (replicate (Suc m) cs)"
  proof -
    have "take (Suc m * ?L) buf1 = take (m * ?L) buf @ cs"
      using fit by (simp add: buf1_def)
    then show ?thesis
      using Suc.prems(2) by (simp only: concat_replicate_Suc)
  qed
  have mx: "max (Suc m) k = max m k" using mk by simp
  have "\<exists>buf'. dup_paste cs (int ?L) (int (k * ?L)) buf1 (int (Suc m * ?L))
                  = Inr (buf', int (max (Suc m) k * ?L))
               \<and> length buf' = length buf1
               \<and> take (max (Suc m) k * ?L) buf' = concat (replicate (max (Suc m) k) cs)"
  proof (rule Suc.hyps(1))
    show "d = k - Suc m" using Suc.hyps(2) by simp
    show "0 < length cs" by (rule Suc.prems(1))
    show "take (Suc m * ?L) buf1 = concat (replicate (Suc m) cs)" by (rule tk)
    show "max (Suc m) k * ?L \<le> length buf1" using Suc.prems(3) len1 mx by simp
    show "int (k * ?L) \<le> INT_MAX" by (rule Suc.prems(4))
  qed
  then obtain buf' where
    r: "dup_paste cs (int ?L) (int (k * ?L)) buf1 (int (Suc m * ?L)) = Inr (buf', int (max m k * ?L))"
       "length buf' = length buf"
       "take (max m k * ?L) buf' = concat (replicate (max m k) cs)"
    using mx len1 by auto
  have "0 < int ?L" using Suc.prems(1) by simp
  from dup_paste_step [OF lt this cp rng]
  have "dup_paste cs (int ?L) (int (k * ?L)) buf (int (m * ?L)) = Inr (buf', int (max m k * ?L))"
    using r(1) by simp
  with r show ?case by blast
qed

lemma get_identity [simp]: "get conv s (identity s i) = get conv s i"
  by (simp add: get_def identity_def)

lemma dup_naive_slot_dead:
  "isNA s i \<or> c ! (i mod length c) = NA_INTEGER \<or> sint (c ! (i mod length c)) < 0 \<Longrightarrow>
   dup_naive_slot conv s c i = None"
  by (auto simp: dup_naive_slot_def isNA_def Let_def split: option.splits)

lemma dup_naive_slot_empty:
  "\<not> isNA s i \<Longrightarrow> c ! (i mod length c) \<noteq> NA_INTEGER \<Longrightarrow> \<not> sint (c ! (i mod length c)) < 0 \<Longrightarrow>
   sint (c ! (i mod length c)) \<le> 0 \<or> length (get conv s i) = 0 \<Longrightarrow>
   dup_naive_slot conv s c i = Some \<lparr>chars = [], enc = CE_NATIVE\<rparr>"
  by (auto simp: dup_naive_slot_def isNA_def get_def Let_def split: option.splits)

lemma dup_naive_slot_copies:
  "\<not> isNA s i \<Longrightarrow> c ! (i mod length c) \<noteq> NA_INTEGER \<Longrightarrow> 0 < sint (c ! (i mod length c)) \<Longrightarrow>
   0 < length (get conv s i) \<Longrightarrow>
   dup_naive_slot conv s c i =
     Some \<lparr>chars = concat (replicate (nat (sint (c ! (i mod length c)))) (get conv s i)),
           enc = CE_UTF8\<rparr>"
  by (auto simp: dup_naive_slot_def isNA_def get_def Let_def split: option.splits)

lemma dup_body_step:
  assumes inv: "dup_inv conv s B n (r, b, ls, li)"
    and i: "i < n"
    and need: "dup_live s c i \<Longrightarrow> dup_need conv s c i \<le> int B"
    and B: "int B \<le> INT_MAX"
  shows "\<exists>b' ls' li'. dup_body conv s c i (r, b, ls, li)
             = Inr (r[i := dup_naive_slot conv s c i], b', ls', li')
           \<and> dup_inv conv s B n (r[i := dup_naive_slot conv s c i], b', ls', li')"
proof -
  let ?ci = "c ! (i mod length c)"
  let ?str = "get conv s i"
  let ?L = "length ?str"
  from inv i have len: "length r = n" "i < length r" "B \<le> length b"
    by (simp_all add: dup_inv_def)
  consider (dead) "isNA s i \<or> ?ci = NA_INTEGER \<or> sint ?ci < 0"
    | (empty) "\<not> isNA s i" "?ci \<noteq> NA_INTEGER" "\<not> sint ?ci < 0" "sint ?ci \<le> 0 \<or> ?L = 0"
    | (copies) "\<not> isNA s i" "?ci \<noteq> NA_INTEGER" "0 < sint ?ci" "0 < ?L"
    by fastforce
  then show ?thesis
  proof cases
    case dead
    then have "dup_body conv s c i (r, b, ls, li) = Inr (r[i := None], b, ls, li)"
      using len by (auto simp: SET_STRING_ELT_def)
    moreover have "dup_inv conv s B n (r[i := None], b, ls, li)"
      using inv by (simp add: dup_inv_def)
    moreover have "dup_naive_slot conv s c i = None"
      using dead by (rule dup_naive_slot_dead)
    ultimately show ?thesis by auto
  next
    case empty
    then have "dup_body conv s c i (r, b, ls, li)
        = Inr (r[i := Some \<lparr>chars = [], enc = CE_NATIVE\<rparr>], b, ls, li)"
      using len by (auto simp: SET_STRING_ELT_def mkCharLen_def mkCharLenCE_def)
    moreover have "dup_inv conv s B n (r[i := Some \<lparr>chars = [], enc = CE_NATIVE\<rparr>], b, ls, li)"
      using inv by (simp add: dup_inv_def)
    moreover have "dup_naive_slot conv s c i = Some \<lparr>chars = [], enc = CE_NATIVE\<rparr>"
      using empty by (rule dup_naive_slot_empty)
    ultimately show ?thesis by auto
  next
    case copies
    define k where "k = nat (sint ?ci)"
    have k: "sint ?ci = int k" "0 < k" using copies(3) by (simp_all add: k_def)
    have "dup_live s c i" using copies by (simp add: dup_live_def)
    from need [OF this] have kB: "k * ?L \<le> B"
      using k(1) by (simp add: dup_need_def flip: of_nat_mult)
    then have kmax: "int (k * ?L) \<le> INT_MAX" using B by linarith
    define ls1 where "ls1 = (if Some (identity s i) \<noteq> ls then Some (identity s i) else ls)"
    define li1 where "li1 = (if Some (identity s i) \<noteq> ls then 0 else li)"
    have "\<exists>m. li1 = int (m * ?L) \<and> m * ?L \<le> B \<and> take (m * ?L) b = concat (replicate m ?str)"
    proof (cases "Some (identity s i) \<noteq> ls")
      case True
      then have "li1 = int (0 * ?L) \<and> 0 * ?L \<le> B \<and> take (0 * ?L) b = concat (replicate 0 ?str)"
        by (simp add: li1_def)
      then show ?thesis by blast
    next
      case False
      then have "ls = Some (identity s i)" by simp
      with inv show ?thesis using False by (simp add: dup_inv_def li1_def)
    qed
    then obtain m where m: "li1 = int (m * ?L)" "m * ?L \<le> B"
        "take (m * ?L) b = concat (replicate m ?str)"
      by blast
    have fit: "max m k * ?L \<le> length b"
      using m(2) kB len(3) by (cases "m \<le> k") (simp_all add: max_def)
    from dup_paste_total [OF copies(4) m(3) fit kmax] obtain b' where
      b': "dup_paste ?str (int ?L) (int (k * ?L)) b (int (m * ?L)) = Inr (b', int (max m k * ?L))"
          "length b' = length b"
          "take (max m k * ?L) b' = concat (replicate (max m k) ?str)"
      by blast
    have rd: "take (k * ?L) b' = concat (replicate k ?str)"
    proof -
      have "take (k * ?L) b' = take (k * ?L) (take (max m k * ?L) b')"
        by (simp add: min_def mult_le_mono1)
      then show ?thesis using b'(3) by (simp add: take_concat_replicate)
    qed
    have mk: "mkCharLenCE b' (int (k * ?L)) CE_UTF8
        = Inr \<lparr>chars = concat (replicate k ?str), enc = CE_UTF8\<rparr>"
      using kB len(3) b'(2) rd by (simp add: mkCharLenCE_def del: of_nat_mult)
    have ls1: "ls1 = Some (identity s i)" by (simp add: ls1_def)
    have "INT_MIN \<le> int (k * ?L)"
      unfolding INT_MIN_def by (rule order_trans [of _ 0]) simp_all
    then have "int32 (int (k * ?L)) = Inr (int (k * ?L))"
      using kmax by (simp add: int32_def)
    then have i32: "int32 (int ?L * int k) = Inr (int (k * ?L))"
      by (simp add: mult.commute)
    have paste: "dup_paste ?str (int ?L) (int (k * ?L)) b li1 = Inr (b', int (max m k * ?L))"
      using b'(1) m(1) by simp
    have "dup_body conv s c i (r, b, ls, li)
        = Inr (r[i := Some \<lparr>chars = concat (replicate k ?str), enc = CE_UTF8\<rparr>], b',
               ls1, int (max m k * ?L))"
    proof (cases "Some (identity s i) \<noteq> ls")
      case True
      with paste have "dup_paste ?str (int ?L) (int (k * ?L)) b 0 = Inr (b', int (max m k * ?L))"
        by (simp add: li1_def)
      then show ?thesis
        using True copies k len i32 mk
        by (simp add: SET_STRING_ELT_def ls1_def Let_def del: of_nat_mult)
    next
      case False
      with paste have "dup_paste ?str (int ?L) (int (k * ?L)) b li = Inr (b', int (max m k * ?L))"
        by (simp add: li1_def)
      then show ?thesis
        using False copies k len i32 mk
        by (simp add: SET_STRING_ELT_def ls1_def Let_def del: of_nat_mult)
    qed
    moreover have "dup_inv conv s B n
        (r[i := Some \<lparr>chars = concat (replicate k ?str), enc = CE_UTF8\<rparr>], b',
         ls1, int (max m k * ?L))"
    proof -
      have "max m k * ?L \<le> B" using m(2) kB by (cases "m \<le> k") (simp_all add: max_def)
      then show ?thesis
        unfolding dup_inv_def ls1 using len b'(2,3) by auto
    qed
    moreover have "dup_naive_slot conv s c i
        = Some \<lparr>chars = concat (replicate k ?str), enc = CE_UTF8\<rparr>"
      unfolding k_def using copies by (rule dup_naive_slot_copies)
    ultimately show ?thesis by auto
  qed
qed

lemma dup_emit:
  assumes r0: "length r0 = n"
    and b0: "B \<le> length b0"
    and ord: "set ord \<subseteq> {0..<n}"
    and need: "\<And>i. i \<in> set ord \<Longrightarrow> dup_live s c i \<Longrightarrow> dup_need conv s c i \<le> int B"
    and B: "int B \<le> INT_MAX"
  shows "\<exists>r b ls li. for_each ord (dup_body conv s c) (r0, b0, None, 0) = Inr (r, b, ls, li)
           \<and> length r = n \<and> (\<forall>i\<in>set ord. r ! i = dup_naive_slot conv s c i)"
proof -
  define I where "I = (\<lambda>V st. dup_inv conv s B n st
      \<and> (\<forall>j\<in>V. fst st ! j = dup_naive_slot conv s c j))"
  have init: "I {} (r0, b0, None, 0)"
    using r0 b0 by (simp add: I_def dup_inv_def)
  have step: "\<exists>st'. dup_body conv s c i st = Inr st' \<and> I (insert i V) st'"
    if "i \<in> set ord" "I V st" for i V st
  proof -
    obtain r b ls li where st: "st = (r, b, ls, li)" by (cases st)
    from that(2) have inv: "dup_inv conv s B n (r, b, ls, li)"
      and vis: "\<forall>j\<in>V. r ! j = dup_naive_slot conv s c j"
      by (simp_all add: I_def st)
    from that(1) ord have i: "i < n" by auto
    from inv have len: "length r = n" by (simp add: dup_inv_def)
    from dup_body_step [OF inv i need [OF that(1)] B] obtain b' ls' li' where
      res: "dup_body conv s c i (r, b, ls, li)
              = Inr (r[i := dup_naive_slot conv s c i], b', ls', li')"
        "dup_inv conv s B n (r[i := dup_naive_slot conv s c i], b', ls', li')"
      by blast
    have "\<forall>j\<in>insert i V. (r[i := dup_naive_slot conv s c i]) ! j = dup_naive_slot conv s c j"
      using vis i len by (auto simp: nth_list_update)
    with res show ?thesis unfolding st I_def by auto
  qed
  from for_each_total [where I = I and V = "{}" and body = "dup_body conv s c" and js = ord
      and st = "(r0, b0, None, 0)", OF init step] obtain st' where
    fin: "for_each ord (dup_body conv s c) (r0, b0, None, 0) = Inr st'" "I (set ord) st'"
    by auto
  obtain r b ls li where st': "st' = (r, b, ls, li)" by (cases st')
  from fin(2) have "length r = n" "\<forall>i\<in>set ord. r ! i = dup_naive_slot conv s c i"
    by (simp_all add: I_def st' dup_inv_def)
  with fin(1) show ?thesis unfolding st' by blast
qed

lemma dup_bufsize_body_cases:
  "dup_bufsize_body conv s c i b0 =
     (if \<not> dup_live s c i then Inr b0
      else if INT_MIN \<le> dup_need conv s c i \<and> dup_need conv s c i \<le> INT_MAX
      then Inr (max b0 (dup_need conv s c i)) else Inl IntOverflow)"
  by (auto simp: dup_bufsize_body_def dup_live_def dup_need_def int32_def max_def)

lemma Max_insert_max:
  "finite S \<Longrightarrow> Max (insert (max a x) S) = Max (insert a (insert x S))"
  for a :: int
  by (cases "S = {}") (simp_all add: max.assoc)

lemma dup_bufsize_loop:
  assumes "for_each is (dup_bufsize_body conv s c) b0 = Inr b"
  shows "b = Max (insert b0 (dup_need conv s c ` {i \<in> set is. dup_live s c i}))
       \<and> (\<forall>i\<in>set is. dup_live s c i \<longrightarrow>
             INT_MIN \<le> dup_need conv s c i \<and> dup_need conv s c i \<le> INT_MAX)"
  using assms
proof (induction "is" arbitrary: b0)
  case Nil
  then show ?case by simp
next
  case (Cons i "is")
  let ?S = "dup_need conv s c ` {j \<in> set is. dup_live s c j}"
  have fin: "finite ?S" by simp
  from Cons.prems have unf: "(case dup_bufsize_body conv s c i b0 of Inl e \<Rightarrow> Inl e
      | Inr b1 \<Rightarrow> for_each is (dup_bufsize_body conv s c) b1) = Inr b"
    by simp
  show ?case
  proof (cases "dup_live s c i")
    case False
    then have "dup_bufsize_body conv s c i b0 = Inr b0"
      by (simp add: dup_bufsize_body_cases)
    with unf have "for_each is (dup_bufsize_body conv s c) b0 = Inr b"
      by simp
    from Cons.IH [OF this] have "b = Max (insert b0 ?S)"
      and rest: "\<forall>j\<in>set is. dup_live s c j \<longrightarrow>
             INT_MIN \<le> dup_need conv s c j \<and> dup_need conv s c j \<le> INT_MAX"
      by simp_all
    moreover have "{j \<in> set (i # is). dup_live s c j} = {j \<in> set is. dup_live s c j}"
      using False by auto
    ultimately show ?thesis using False by simp
  next
    case True
    then have "dup_bufsize_body conv s c i b0 =
        (if INT_MIN \<le> dup_need conv s c i \<and> dup_need conv s c i \<le> INT_MAX
         then Inr (max b0 (dup_need conv s c i)) else Inl IntOverflow)"
      by (simp add: dup_bufsize_body_cases)
    with unf have rng: "INT_MIN \<le> dup_need conv s c i \<and> dup_need conv s c i \<le> INT_MAX"
      and run: "for_each is (dup_bufsize_body conv s c) (max b0 (dup_need conv s c i)) = Inr b"
      by (simp_all split: if_splits)
    from Cons.IH [OF run] have b: "b = Max (insert (max b0 (dup_need conv s c i)) ?S)"
      and rest: "\<forall>j\<in>set is. dup_live s c j \<longrightarrow>
             INT_MIN \<le> dup_need conv s c j \<and> dup_need conv s c j \<le> INT_MAX"
      by simp_all
    have set: "{j \<in> set (i # is). dup_live s c j} = insert i {j \<in> set is. dup_live s c j}"
      using True by auto
    have "Max (insert (max b0 (dup_need conv s c i)) ?S)
        = Max (insert b0 (insert (dup_need conv s c i) ?S))"
      using fin by (rule Max_insert_max)
    with b rng rest show ?thesis unfolding set by simp
  qed
qed

lemma stri_dup_result:
  assumes run: "stri_dup conv junk ord s c = Inr r"
    and ord: "set ord = {0..<stri__recycling_rule (length s) (length c)}"
  shows "r = dup_naive conv s c"
proof (cases "stri__recycling_rule (length s) (length c) = 0")
  case True
  with run show ?thesis by (simp add: stri_dup_def dup_naive_def allocVector_def)
next
  case False
  define n where "n = stri__recycling_rule (length s) (length c)"
  from False run obtain bufsize st where
    pre: "for_each [0..<n] (dup_bufsize_body conv s c) 0 = Inr bufsize"
    and sz: "int32 (bufsize + 1) = Inr (bufsize + 1)"
    and emit: "for_each ord (dup_body conv s c)
                 (allocVector n, new_chars junk (bufsize + 1), None, 0) = Inr st"
    and r: "r = fst st"
    by (auto simp: stri_dup_def Let_def ebind_eq_Inr int32_eq_Inr n_def)
  from dup_bufsize_loop [OF pre]
  have mx: "bufsize = Max (insert 0 (dup_need conv s c ` {i \<in> set [0..<n]. dup_live s c i}))"
    by simp
  then have nonneg: "0 \<le> bufsize" by simp
  have le: "dup_need conv s c i \<le> bufsize" if "i < n" "dup_live s c i" for i
    unfolding mx using that by (intro Max_ge) auto
  define B where "B = nat bufsize"
  have B: "int B = bufsize" using nonneg by (simp add: B_def)
  have "\<exists>r b ls li. for_each ord (dup_body conv s c)
             (allocVector n, new_chars junk (bufsize + 1), None, 0) = Inr (r, b, ls, li)
           \<and> length r = n \<and> (\<forall>i\<in>set ord. r ! i = dup_naive_slot conv s c i)"
  proof (rule dup_emit [where B = B])
    show "length (allocVector n) = n" by (simp add: allocVector_def)
    show "B \<le> length (new_chars junk (bufsize + 1))"
      using nonneg by (simp add: new_chars_def B_def)
    show "set ord \<subseteq> {0..<n}" using ord by (simp add: n_def)
    show "dup_need conv s c i \<le> int B" if "i \<in> set ord" "dup_live s c i" for i
      using le [of i] that ord by (simp add: B n_def)
    show "int B \<le> INT_MAX" using sz by (simp add: B int32_eq_Inr)
  qed
  with emit r have "length r = n" "\<forall>i\<in>set ord. r ! i = dup_naive_slot conv s c i"
    by auto
  then show ?thesis
    unfolding dup_naive_def n_def [symmetric]
    using ord by (intro nth_equalityI) (simp_all add: n_def)
qed




section \<open>PairJoin: the loops\<close>

lemma for_each_partial:
  assumes "for_each js body st = Inr st'"
    and "I V st"
    and "\<And>i V st st'. i \<in> set js \<Longrightarrow> I V st \<Longrightarrow> body i st = Inr st' \<Longrightarrow> I (insert i V) st'"
  shows "I (V \<union> set js) st'"
  using assms
proof (induction js arbitrary: V st)
  case Nil
  then show ?case by simp
next
  case (Cons i js)
  from Cons.prems(1) obtain st1 where s1: "body i st = Inr st1"
    and rest: "for_each js body st1 = Inr st'"
    by (auto split: sum.splits)
  have "I (insert i V) st1"
    by (rule Cons.prems(3) [OF _ Cons.prems(2) s1]) simp
  then have "I (insert i V \<union> set js) st'"
    by (rule Cons.IH [OF rest]) (use Cons.prems(3) in auto)
  then show ?case by simp
qed

lemma stride_stop: "\<not> (j < n \<and> 0 < step) \<Longrightarrow> stride j n step = []"
  by (subst stride.simps) auto

lemma stride_step: "j < n \<Longrightarrow> 0 < step \<Longrightarrow> stride j n step = j # stride (j + step) n step"
  by (subst stride.simps) simp

lemma for_stride_stop: "\<not> (j < n \<and> 0 < step) \<Longrightarrow> for_stride j n step body st = Inr st"
  by (subst for_stride.simps) auto

lemma for_stride_step:
  "j < n \<Longrightarrow> 0 < step \<Longrightarrow>
   for_stride j n step body st =
     (case body j st of
        Inl e \<Rightarrow> Inl e
      | Inr st' \<Rightarrow>
         (case int32 (int j + int step) of
            Inl e \<Rightarrow> Inl e
          | Inr j' \<Rightarrow> for_stride (nat j') n step body st'))"
  by (subst for_stride.simps) simp

lemma for_stride_as_for_each:
  "for_stride j n step body st = Inr st' \<Longrightarrow> for_each (stride j n step) body st = Inr st'"
proof (induction j n step body st rule: for_stride.induct)
  case (1 j n step body st)
  show ?case
  proof (cases "j < n \<and> 0 < step")
    case False
    with "1.prems" show ?thesis
      by (simp add: for_stride_stop stride_stop)
  next
    case True
    with "1.prems" obtain st1 where s1: "body j st = Inr st1"
      and nx: "int32 (int j + int step) = Inr (int j + int step)"
      and rest: "for_stride (j + step) n step body st1 = Inr st'"
      by (auto simp: for_stride_step int32_eq_Inr nat_add_distrib split: sum.splits)
    have "nat (int j + int step) = j + step" by simp
    with "1.IH" [OF True s1 nx] rest
    have "for_each (stride (j + step) n step) body st1 = Inr st'" by simp
    with True s1 show ?thesis by (simp add: stride_step)
  qed
qed

lemma stride_mem:
  "k \<in> set (stride j n step) \<Longrightarrow> k < n \<and> j \<le> k \<and> k mod step = j mod step"
proof (induction j n step rule: stride.induct)
  case (1 j n step)
  show ?case
  proof (cases "j < n \<and> 0 < step")
    case False
    with "1.prems" show ?thesis by (simp add: stride_stop)
  next
    case True
    with "1.prems" have "k = j \<or> k \<in> set (stride (j + step) n step)"
      by (simp add: stride_step)
    then show ?thesis
    proof
      assume "k = j"
      with True show ?thesis by simp
    next
      assume "k \<in> set (stride (j + step) n step)"
      from "1.IH" [OF True this] show ?thesis by simp
    qed
  qed
qed

lemma stride_covers:
  "0 < step \<Longrightarrow> j \<le> k \<Longrightarrow> k < n \<Longrightarrow> k mod step = j mod step \<Longrightarrow> k \<in> set (stride j n step)"
proof (induction j n step rule: stride.induct)
  case (1 j n step)
  from "1.prems" have jn: "j < n \<and> 0 < step" by simp
  show ?case
  proof (cases "k = j")
    case True
    with jn show ?thesis by (simp add: stride_step)
  next
    case False
    with "1.prems" have lt: "j < k" by simp
    have "step dvd k - j"
      using "1.prems"(4) lt by (metis mod_eq_dvd_iff_nat less_imp_le_nat)
    with lt have "step \<le> k - j" by (simp add: dvd_imp_le)
    then have le: "j + step \<le> k" using lt by simp
    have "k mod step = (j + step) mod step" using "1.prems"(4) by simp
    from "1.IH" [OF jn "1.prems"(1) le "1.prems"(3) this] jn
    show ?thesis by (simp add: stride_step)
  qed
qed

lemma memcpy_eq_Inr:
  "memcpy b off src (int (length src)) = Inr b' \<longleftrightarrow>
     (0 \<le> off \<and> nat off + length src \<le> length b
      \<and> b' = take (nat off) b @ src @ drop (nat off + length src) b)"
  by (auto simp: memcpy_def)

lemma mkCharLenCE_eq_Inr:
  "mkCharLenCE b n ce = Inr x \<longleftrightarrow>
     (0 \<le> n \<and> nat n \<le> length b \<and> x = \<lparr>chars = take (nat n) b, enc = ce\<rparr>)"
  by (auto simp: mkCharLenCE_def)

lemma SET_STRING_ELT_eq_Inr:
  "SET_STRING_ELT v i x = Inr v' \<longleftrightarrow> (i < length v \<and> v' = v[i := x])"
  by (auto simp: SET_STRING_ELT_def)

lemma join2_inner_step:
  assumes run: "join2_inner s2 ss1 j (e, b, b2) = Inr (e', b', b2')"
    and inv: "join2_bufinv ss1 b b2"
  shows "j < length e
       \<and> e' = e[j := (case s2 ! (j mod length s2) of
                        None \<Rightarrow> None
                      | Some y \<Rightarrow> Some \<lparr>chars = chars ss1 @ chars y, enc = CE_NATIVE\<rparr>)]
       \<and> join2_bufinv ss1 b' b2'"
proof (cases "s2 ! (j mod length s2)")
  case None
  with run inv show ?thesis
    by (auto simp: ebind_eq_Inr SET_STRING_ELT_eq_Inr)
next
  case (Some ss2)
  let ?a = "chars ss1" and ?c = "chars ss2"
  let ?L1 = "length ?a" and ?L2 = "length ?c"
  from run Some obtain ba o2 bb x where
    A: "(if int ?L1 \<noteq> 0 \<and> b2 = 0
         then ebind (memcpy b 0 ?a (int ?L1)) (\<lambda>b1. Inr (b1, int ?L1))
         else Inr (b, b2)) = Inr (ba, o2)"
    and B: "(if int ?L2 \<noteq> 0 then memcpy ba o2 ?c (int ?L2) else Inr ba) = Inr bb"
    and C: "int32 (int ?L1 + int ?L2) = Inr (int ?L1 + int ?L2)"
    and D: "mkCharLen bb (int ?L1 + int ?L2) = Inr x"
    and E: "SET_STRING_ELT e j (Some x) = Inr e'"
    and out: "b' = bb" "b2' = o2"
    by (auto simp: ebind_eq_Inr int32_eq_Inr LENGTH_sxp_def CHAR_sxp_def Let_def
          split: prod.splits)
  have a: "o2 = int ?L1 \<and> take ?L1 ba = ?a"
  proof (cases "int ?L1 \<noteq> 0 \<and> b2 = 0")
    case True
    with A show ?thesis by (auto simp: ebind_eq_Inr memcpy_eq_Inr)
  next
    case False
    with A have "ba = b" "o2 = b2" by (auto split: if_splits)
    with False inv show ?thesis by (auto simp: join2_bufinv_def)
  qed
  have b: "take (?L1 + ?L2) bb = ?a @ ?c \<and> take ?L1 bb = ?a"
  proof (cases "int ?L2 \<noteq> 0")
    case True
    with B a have "?L1 + ?L2 \<le> length ba" "bb = take ?L1 ba @ ?c @ drop (?L1 + ?L2) ba"
      by (simp_all add: memcpy_eq_Inr)
    with a show ?thesis by simp
  next
    case False
    with B a show ?thesis by simp
  qed
  from D b have x: "x = \<lparr>chars = ?a @ ?c, enc = CE_NATIVE\<rparr>"
    by (simp add: mkCharLen_def mkCharLenCE_eq_Inr nat_add_distrib)
  from a b out have "join2_bufinv ss1 b' b2'" by (simp add: join2_bufinv_def)
  with E x Some show ?thesis by (simp add: SET_STRING_ELT_eq_Inr)
qed

text \<open>One row of the result: the slots \<open>i\<close>, \<open>i + ns1\<close>, ... below \<open>nsm\<close>.\<close>

lemma join2_row:
  fixes E :: "'s \<Rightarrow> strsxp"
  assumes run: "for_stride i nsm ns1 body st = Inr st'"
    and i: "i < ns1"
    and P: "P st"
    and len: "length (E st) = nsm"
    and good: "\<forall>k<nsm. k \<in> G \<longrightarrow> E st ! k = slot k"
    and step: "\<And>j st st'. j < nsm \<Longrightarrow> j mod ns1 = i \<Longrightarrow> P st \<Longrightarrow> body j st = Inr st' \<Longrightarrow>
                 P st' \<and> E st' = (E st)[j := slot j]"
  shows "P st' \<and> length (E st') = nsm
       \<and> (\<forall>k<nsm. k \<in> G \<or> k mod ns1 = i \<longrightarrow> E st' ! k = slot k)"
proof -
  define I where "I = (\<lambda>W st. P st \<and> length (E st) = nsm
      \<and> (\<forall>k<nsm. k \<in> G \<or> k \<in> W \<longrightarrow> E st ! k = slot k))"
  have run': "for_each (stride i nsm ns1) body st = Inr st'"
    using run by (rule for_stride_as_for_each)
  have init: "I {} st" using P len good by (simp add: I_def)
  have "I ({} \<union> set (stride i nsm ns1)) st'"
  proof (rule for_each_partial [where I = I, OF run' init])
    fix j W st1 st2
    assume j: "j \<in> set (stride i nsm ns1)" and I1: "I W st1"
      and b: "body j st1 = Inr st2"
    from stride_mem [OF j] i have jj: "j < nsm" "j mod ns1 = i" by simp_all
    from I1 have "P st1" by (simp add: I_def)
    from step [OF jj this b] have s2: "P st2" "E st2 = (E st1)[j := slot j]" by simp_all
    with I1 jj show "I (insert j W) st2"
      by (auto simp: I_def nth_list_update)
  qed
  then have fin: "P st'" "length (E st') = nsm"
    "\<forall>k<nsm. k \<in> G \<or> k \<in> set (stride i nsm ns1) \<longrightarrow> E st' ! k = slot k"
    by (simp_all add: I_def)
  have "k \<in> set (stride i nsm ns1)" if "k < nsm" "k mod ns1 = i" for k
  proof (rule stride_covers)
    show "0 < ns1" using i by simp
    show "i \<le> k" using that(2) i by (metis mod_less_eq_dividend)
    show "k < nsm" by (rule that(1))
    show "k mod ns1 = i mod ns1" using that(2) i by simp
  qed
  with fin show ?thesis by blast
qed

lemma join2_body_step:
  assumes run: "join2_body s1 s2 nsm i (e, b) = Inr (e', b')"
    and i: "i < length s1"
    and len: "length e = nsm"
    and good: "\<forall>k<nsm. k \<in> G \<longrightarrow> e ! k = join2_slot s1 s2 k"
  shows "length e' = nsm
       \<and> (\<forall>k<nsm. k \<in> G \<or> k mod length s1 = i \<longrightarrow> e' ! k = join2_slot s1 s2 k)"
proof (cases "s1 ! i")
  case None
  with run have r: "for_stride i nsm (length s1) join2_na_inner (e, b) = Inr (e', b')"
    by simp
  have "True \<and> length (fst (e', b')) = nsm
      \<and> (\<forall>k<nsm. k \<in> G \<or> k mod length s1 = i \<longrightarrow> fst (e', b') ! k = join2_slot s1 s2 k)"
  proof (rule join2_row [where E = fst and P = "\<lambda>_. True", OF r i])
    show "length (fst (e, b)) = nsm" using len by simp
    show "\<forall>k<nsm. k \<in> G \<longrightarrow> fst (e, b) ! k = join2_slot s1 s2 k" using good by simp
    fix j and st st' :: "strsxp \<times> string"
    assume "j mod length s1 = i" "join2_na_inner j st = Inr st'"
    then show "True \<and> fst st' = (fst st)[j := join2_slot s1 s2 j]"
      using None by (cases st) (auto simp: ebind_eq_Inr SET_STRING_ELT_eq_Inr join2_slot_def)
  qed simp
  then show ?thesis by simp
next
  case (Some ss1)
  with run obtain b2 where
    r: "for_stride i nsm (length s1) (join2_inner s2 ss1) (e, b, 0) = Inr (e', b', b2)"
    by (auto simp: ebind_eq_Inr)
  define P where "P = (\<lambda>st :: strsxp \<times> string \<times> int.
      join2_bufinv ss1 (fst (snd st)) (snd (snd st)))"
  have "P (e', b', b2) \<and> length (fst (e', b', b2)) = nsm
      \<and> (\<forall>k<nsm. k \<in> G \<or> k mod length s1 = i \<longrightarrow> fst (e', b', b2) ! k = join2_slot s1 s2 k)"
  proof (rule join2_row [where E = fst and P = P, OF r i])
    show "P (e, b, 0)" by (simp add: P_def join2_bufinv_def)
    show "length (fst (e, b, 0)) = nsm" using len by simp
    show "\<forall>k<nsm. k \<in> G \<longrightarrow> fst (e, b, 0) ! k = join2_slot s1 s2 k" using good by simp
    fix j and st st' :: "strsxp \<times> string \<times> int"
    assume j: "j mod length s1 = i" and p: "P st" and b: "join2_inner s2 ss1 j st = Inr st'"
    obtain e1 b1 o1 where st: "st = (e1, b1, o1)" by (cases st)
    obtain e2 b2 o2 where st': "st' = (e2, b2, o2)" by (cases st')
    from p have inv: "join2_bufinv ss1 b1 o1" by (simp add: P_def st)
    from join2_inner_step [OF b [unfolded st st'] inv] j Some
    show "P st' \<and> fst st' = (fst st)[j := join2_slot s1 s2 j]"
      by (simp add: st st' P_def join2_slot_def)
  qed
  then show ?thesis by simp
qed

lemma join2_emit:
  assumes run: "for_each [0..<length s1] (join2_body s1 s2 nsm) (e0, b0) = Inr (e', b')"
    and len: "length e0 = nsm"
    and ns1: "0 < length s1"
  shows "e' = map (join2_slot s1 s2) [0..<nsm]"
proof -
  define I where "I = (\<lambda>V (st :: strsxp \<times> string). length (fst st) = nsm
      \<and> (\<forall>k<nsm. k mod length s1 \<in> V \<longrightarrow> fst st ! k = join2_slot s1 s2 k))"
  have init: "I {} (e0, b0)" using len by (simp add: I_def)
  have "I ({} \<union> set [0..<length s1]) (e', b')"
  proof (rule for_each_partial [where I = I, OF run init])
    fix i V and st st' :: "strsxp \<times> string"
    assume i: "i \<in> set [0..<length s1]" and I1: "I V st"
      and b: "join2_body s1 s2 nsm i st = Inr st'"
    obtain e1 b1 where st: "st = (e1, b1)" by (cases st)
    obtain e2 b2 where st': "st' = (e2, b2)" by (cases st')
    from i have i': "i < length s1" by simp
    from I1 have l1: "length e1 = nsm"
      and g1: "\<forall>k<nsm. k \<in> {k. k mod length s1 \<in> V} \<longrightarrow> e1 ! k = join2_slot s1 s2 k"
      by (simp_all add: I_def st)
    from join2_body_step [OF b [unfolded st st'] i' l1 g1]
    show "I (insert i V) st'" by (auto simp: I_def st')
  qed
  then have "length e' = nsm" "\<forall>k<nsm. e' ! k = join2_slot s1 s2 k"
    using ns1 by (simp_all add: I_def)
  then show ?thesis by (intro nth_equalityI) simp_all
qed

lemma join2_maxsize_inner_step:
  assumes "join2_maxsize_inner s2 (int (length (chars x))) j m = Inr m'"
  shows "m \<le> m'
       \<and> (case s2 ! (j mod length s2) of
            None \<Rightarrow> 0
          | Some y \<Rightarrow> int (length (chars x)) + int (length (chars y))) \<le> max 0 m'"
  using assms
  by (auto simp: join2_maxsize_inner_def ebind_eq_Inr int32_eq_Inr LENGTH_sxp_def
        split: option.splits if_splits)

lemma join2_maxsize_body_step:
  assumes run: "join2_maxsize_body s1 s2 nsm i m = Inr m'"
    and i: "i < length s1"
    and m: "0 \<le> m"
  shows "m \<le> m' \<and> (\<forall>k<nsm. k mod length s1 = i \<longrightarrow> join2_need s1 s2 k \<le> m')"
proof (cases "s1 ! i")
  case None
  with run m show ?thesis
    by (auto simp: join2_maxsize_body_def join2_need_def)
next
  case (Some x)
  with run have r: "for_each (stride i nsm (length s1))
      (join2_maxsize_inner s2 (int (length (chars x)))) m = Inr m'"
    by (auto simp: join2_maxsize_body_def LENGTH_sxp_def intro: for_stride_as_for_each)
  define I where "I = (\<lambda>W (v :: int). m \<le> v \<and> (\<forall>k\<in>W. join2_need s1 s2 k \<le> v))"
  have "I ({} \<union> set (stride i nsm (length s1))) m'"
  proof (rule for_each_partial [where I = I, OF r])
    show "I {} m" by (simp add: I_def)
    fix j W and v v' :: int
    assume j: "j \<in> set (stride i nsm (length s1))" and I1: "I W v"
      and b: "join2_maxsize_inner s2 (int (length (chars x))) j v = Inr v'"
    from stride_mem [OF j] i have jj: "j mod length s1 = i" by simp
    from I1 m have "0 \<le> v" by (simp add: I_def)
    with join2_maxsize_inner_step [OF b] jj Some I1
    show "I (insert j W) v'"
      by (auto simp: I_def join2_need_def)
  qed
  then have fin: "m \<le> m'" "\<forall>k\<in>set (stride i nsm (length s1)). join2_need s1 s2 k \<le> m'"
    by (simp_all add: I_def)
  have "k \<in> set (stride i nsm (length s1))" if "k < nsm" "k mod length s1 = i" for k
  proof (rule stride_covers)
    show "0 < length s1" using i by (cases s1) simp_all
    show "i \<le> k" using that(2) i by (metis mod_less_eq_dividend)
    show "k < nsm" by (rule that(1))
    show "k mod length s1 = i mod length s1" using that(2) i by simp
  qed
  with fin show ?thesis by blast
qed

lemma join2_maxsize:
  assumes run: "for_each [0..<length s1] (join2_maxsize_body s1 s2 nsm) 0 = Inr m"
    and ns1: "0 < length s1"
  shows "\<forall>k<nsm. join2_need s1 s2 k \<le> m"
proof -
  define I where "I = (\<lambda>V (v :: int). 0 \<le> v
      \<and> (\<forall>k<nsm. k mod length s1 \<in> V \<longrightarrow> join2_need s1 s2 k \<le> v))"
  have "I ({} \<union> set [0..<length s1]) m"
  proof (rule for_each_partial [where I = I, OF run])
    show "I {} 0" by (simp add: I_def)
    fix i V and v v' :: int
    assume i: "i \<in> set [0..<length s1]" and I1: "I V v"
      and b: "join2_maxsize_body s1 s2 nsm i v = Inr v'"
    from i have i': "i < length s1" by simp
    from I1 have v: "0 \<le> v" by (simp add: I_def)
    from join2_maxsize_body_step [OF b i' v] I1 v
    show "I (insert i V) v'" by (fastforce simp: I_def)
  qed
  then show ?thesis using ns1 by (simp add: I_def)
qed

lemma join2_blank:
  assumes run: "for_each [0..<nsm] (join2_blank_body s1 s2) e0 = Inr e'"
    and len: "length e0 = nsm"
    and small: "\<forall>k<nsm. join2_need s1 s2 k \<le> 0"
  shows "e' = map (join2_slot s1 s2) [0..<nsm]"
proof -
  define I where "I = (\<lambda>V (e :: strsxp). length e = nsm
      \<and> (\<forall>k\<in>V. e ! k = join2_slot s1 s2 k))"
  have "I ({} \<union> set [0..<nsm]) e'"
  proof (rule for_each_partial [where I = I, OF run])
    show "I {} e0" using len by (simp add: I_def)
    fix i V and e1 e2 :: strsxp
    assume i: "i \<in> set [0..<nsm]" and I1: "I V e1"
      and b: "join2_blank_body s1 s2 i e1 = Inr e2"
    from i small have "join2_need s1 s2 i \<le> 0" by simp
    moreover have "chars x = [] \<and> chars y = []"
      if "int (length (chars x)) + int (length (chars y)) \<le> 0" for x y :: charsxp
    proof -
      from that have "length (chars x) + length (chars y) = 0" by linarith
      then show ?thesis by simp
    qed
    ultimately have slot: "join2_slot s1 s2 i =
        (if s1 ! (i mod length s1) = None \<or> s2 ! (i mod length s2) = None then None
         else Some \<lparr>chars = [], enc = CE_NATIVE\<rparr>)"
      by (auto simp: join2_need_def join2_slot_def simp del: of_nat_add split: option.splits)
    from b have "e2 = e1[i := join2_slot s1 s2 i]" "i < length e1"
      unfolding slot
      by (auto simp: join2_blank_body_def ebind_eq_Inr SET_STRING_ELT_eq_Inr mkCharLen_def
            mkCharLenCE_eq_Inr split: if_splits)
    with I1 show "I (insert i V) e2"
      by (auto simp: I_def nth_list_update)
  qed
  then have "length e' = nsm" "\<forall>k<nsm. e' ! k = join2_slot s1 s2 k"
    by (simp_all add: I_def)
  then show ?thesis by (intro nth_equalityI) simp_all
qed

lemma stri_join2_result:
  assumes run: "stri_join2 junk s1 s2 = Inr r"
    and ne: "s1 \<noteq> []" "s2 \<noteq> []"
  shows "r = map (join2_slot s1 s2) [0..<max (length s1) (length s2)]"
proof -
  define nsm where "nsm = max (length s1) (length s2)"
  from ne have rr: "stri__recycling_rule (length s1) (length s2) = nsm"
    by (simp add: stri__recycling_rule_def nsm_def)
  from run ne rr obtain m where
    pre: "for_each [0..<length s1] (join2_maxsize_body s1 s2 nsm) 0 = Inr m"
    and post: "(if m \<le> 0 then for_each [0..<nsm] (join2_blank_body s1 s2) (allocVector nsm)
                else ebind (for_each [0..<length s1] (join2_body s1 s2 nsm)
                              (allocVector nsm, new_chars junk m))
                       (\<lambda>(e', buf). Inr e')) = Inr r"
    by (auto simp: stri_join2_def Let_def ebind_eq_Inr)
  have ns1: "0 < length s1" using ne by simp
  have len: "length (allocVector nsm) = nsm" by (simp add: allocVector_def)
  show ?thesis
  proof (cases "m \<le> 0")
    case True
    with post have b: "for_each [0..<nsm] (join2_blank_body s1 s2) (allocVector nsm) = Inr r"
      by simp
    from join2_maxsize [OF pre ns1] True have "\<forall>k<nsm. join2_need s1 s2 k \<le> 0"
      by force
    from join2_blank [OF b len this] show ?thesis by (simp add: nsm_def)
  next
    case False
    with post obtain b' where
      "for_each [0..<length s1] (join2_body s1 s2 nsm) (allocVector nsm, new_chars junk m)
         = Inr (r, b')"
      by (auto simp: ebind_eq_Inr)
    from join2_emit [OF this len ns1] show ?thesis by (simp add: nsm_def)
  qed
qed









section \<open>Flatten: the loops\<close>

lemma flatten_nchar_Some:
  "flatten_nchar conv s sepn js n0 = Inr (Some n) \<Longrightarrow>
   (\<forall>i\<in>set js. \<not> isNA s i) \<and>
   n = n0 + (\<Sum>i\<leftarrow>js. int (length (get conv s i))
                        + (if int i < int (length s) - 1 then sepn else 0))"
proof (induction js arbitrary: n0)
  case Nil
  then show ?case by simp
next
  case (Cons i js)
  let ?d = "int (length (get conv s i)) + (if int i < int (length s) - 1 then sepn else 0)"
  from Cons.prems have na: "\<not> isNA s i"
    and rest: "flatten_nchar conv s sepn js (n0 + ?d) = Inr (Some n)"
    by (auto simp: int32_eq_Inr split: if_splits sum.splits)
  from Cons.IH [OF rest] na show ?case by (simp add: algebra_simps)
qed

lemma flatten_nchar_None:
  "flatten_nchar conv s sepn js n0 = Inr None \<Longrightarrow> \<exists>i\<in>set js. isNA s i"
  by (induction js arbitrary: n0) (auto split: if_splits sum.splits)

lemma flatten_body_step:
  assumes run: "flatten_body conv s sepstr (int (length sepstr)) i (b, cur) = Inr (b', cur')"
    and cur: "0 \<le> cur"
  shows "cur' = cur + int (length (flatten_piece conv s sepstr i))
       \<and> take (nat cur') b' = take (nat cur) b @ flatten_piece conv s sepstr i
       \<and> nat cur \<le> length b"
proof -
  let ?x = "get conv s i"
  from run obtain b1 where
    m1: "memcpy b cur ?x (int (length ?x)) = Inr b1"
    and rest: "(if int i < int (length s) - 1 \<and> int (length sepstr) > 0
                then ebind (memcpy b1 (cur + int (length ?x)) sepstr (int (length sepstr)))
                       (\<lambda>b2. ebind (int32 (cur + int (length ?x) + int (length sepstr)))
                          (\<lambda>cur2. Inr (b2, cur2)))
                else Inr (b1, cur + int (length ?x))) = Inr (b', cur')"
    by (auto simp: ebind_eq_Inr int32_eq_Inr Let_def)
  from m1 have fit: "nat cur + length ?x \<le> length b"
    and b1: "b1 = take (nat cur) b @ ?x @ drop (nat cur + length ?x) b"
    by (simp_all add: memcpy_eq_Inr)
  have n1: "nat (cur + int (length ?x)) = nat cur + length ?x"
    using cur by (simp add: nat_add_distrib)
  have t1: "take (nat cur + length ?x) b1 = take (nat cur) b @ ?x"
    using fit by (simp add: b1)
  show ?thesis
  proof (cases "int i < int (length s) - 1 \<and> int (length sepstr) > 0")
    case True
    with rest have m2: "memcpy b1 (cur + int (length ?x)) sepstr (int (length sepstr)) = Inr b'"
      and c': "cur' = cur + int (length ?x) + int (length sepstr)"
      by (auto simp: ebind_eq_Inr int32_eq_Inr)
    from m2 have fit2: "nat cur + length ?x + length sepstr \<le> length b1"
      and b': "b' = take (nat cur + length ?x) b1 @ sepstr
                      @ drop (nat cur + length ?x + length sepstr) b1"
      by (simp_all add: memcpy_eq_Inr n1)
    have n2: "nat cur' = nat cur + length ?x + length sepstr"
      using cur by (simp add: c' nat_add_distrib)
    have "take (nat cur') b' = take (nat cur) b @ ?x @ sepstr"
      unfolding n2 b' t1 using fit2 fit by (simp add: b1)
    with True c' fit show ?thesis by (simp add: flatten_piece_def)
  next
    case False
    with rest have out: "b' = b1" "cur' = cur + int (length ?x)" by (auto split: if_splits)
    from False have piece: "flatten_piece conv s sepstr i = ?x"
      by (auto simp: flatten_piece_def)
    from out t1 n1 fit show ?thesis by (simp add: piece)
  qed
qed

lemma flatten_emit:
  assumes "for_each js (flatten_body conv s sepstr (int (length sepstr))) (b, cur) = Inr (b', cur')"
    and "0 \<le> cur" and "nat cur \<le> length b"
  shows "cur' = cur + int (length (concat (map (flatten_piece conv s sepstr) js)))
       \<and> take (nat cur') b' = take (nat cur) b @ concat (map (flatten_piece conv s sepstr) js)"
  using assms
proof (induction js arbitrary: b cur)
  case Nil
  then show ?case by simp
next
  case (Cons i js)
  from Cons.prems(1) obtain b1 cur1 where
    s1: "flatten_body conv s sepstr (int (length sepstr)) i (b, cur) = Inr (b1, cur1)"
    and rest: "for_each js (flatten_body conv s sepstr (int (length sepstr))) (b1, cur1)
                 = Inr (b', cur')"
    by (auto split: sum.splits)
  from flatten_body_step [OF s1 Cons.prems(2)]
  have c1: "cur1 = cur + int (length (flatten_piece conv s sepstr i))"
    and t1: "take (nat cur1) b1 = take (nat cur) b @ flatten_piece conv s sepstr i"
    by blast+
  have pos: "0 \<le> cur1" using c1 Cons.prems(2) by simp
  have fit: "nat cur1 \<le> length b1"
  proof -
    have "length (take (nat cur1) b1) = nat cur1"
      unfolding t1 using Cons.prems(2,3) by (simp add: c1 nat_add_distrib)
    then show ?thesis by simp
  qed
  from Cons.IH [OF rest pos fit]
  have c': "cur' = cur1 + int (length (concat (map (flatten_piece conv s sepstr) js)))"
    and t': "take (nat cur') b' = take (nat cur1) b1 @ concat (map (flatten_piece conv s sepstr) js)"
    by blast+
  have "cur' = cur + int (length (concat (map (flatten_piece conv s sepstr) (i # js))))"
    using c' c1 by simp
  moreover have "take (nat cur') b'
      = take (nat cur) b @ concat (map (flatten_piece conv s sepstr) (i # js))"
    using t' t1 by simp
  ultimately show ?case by blast
qed

lemma pieces_joined:
  "concat (map (\<lambda>i. f i @ (if int i < int (Suc m) - 1 then sepstr else [])) [0..<Suc m])
     = f 0 @ concat (map (\<lambda>i. sepstr @ f i) [1..<Suc m])"
proof -
  define g where "g = (\<lambda>i. f i @ (if int i < int (Suc m) - 1 then sepstr else []))"
  have body: "concat (map (\<lambda>i. f i @ sepstr) [0..<k]) @ f k
      = f 0 @ concat (map (\<lambda>i. sepstr @ f i) [1..<Suc k])" for k
    by (induction k) simp_all
  have g1: "map g [0..<m] = map (\<lambda>i. f i @ sepstr) [0..<m]"
    by (rule map_cong) (simp_all add: g_def)
  have g2: "g m = f m" by (simp add: g_def)
  have "concat (map g [0..<Suc m]) = concat (map g [0..<m]) @ g m" by simp
  also have "\<dots> = concat (map (\<lambda>i. f i @ sepstr) [0..<m]) @ f m"
    by (simp only: g1 g2)
  also have "\<dots> = f 0 @ concat (map (\<lambda>i. sepstr @ f i) [1..<Suc m])"
    by (rule body)
  finally show ?thesis unfolding g_def .
qed

lemma length_joined:
  "length (concat (map ((@) sepstr) ys)) = sum_list (map length ys) + length ys * length sepstr"
  by (induction ys) simp_all

lemma length_pieces:
  "int (length (concat (map (flatten_piece conv s sepstr) js)))
     = (\<Sum>i\<leftarrow>js. int (length (get conv s i))
                   + (if int i < int (length s) - 1 then int (length sepstr) else 0))"
  by (induction js) (simp_all add: flatten_piece_def)

lemma isNA_single [simp]: "isNA [x] 0 = (x = None)"
  by (simp add: isNA_def)

lemma get_single [simp]: "get conv [Some x] 0 = conv x"
  by (simp add: get_def)

lemma isNA_nth: "i < length s \<Longrightarrow> isNA s i = (s ! i = None)"
  by (simp add: isNA_def)

text \<open>What \<^verbatim>\<open>stri_flatten\<close> does once the separator is a single string that is not null.\<close>

lemma stri_flatten_single:
  assumes "s \<noteq> []"
  shows "stri_flatten conv junk s [Some x] =
     ([], case flatten_nchar conv s (int (length (conv x))) [0..<length s] 0 of
            Inl e \<Rightarrow> Inl e
          | Inr None \<Rightarrow> Inr [None]
          | Inr (Some nchar) \<Rightarrow>
              ebind (for_each [0..<length s]
                       (flatten_body conv s (conv x) (int (length (conv x))))
                       (new_chars junk nchar, 0)) (\<lambda>(buf, cur).
              ebind (mkCharLenCE buf nchar CE_UTF8) (\<lambda>y.
                SET_STRING_ELT (allocVector 1) 0 (Some y))))"
  using assms
  by (simp add: stri_flatten_def Let_def stri__vector_NA_strings_def
        split: sum.splits option.splits)

lemma stri_flatten_joined:
  assumes ne: "s \<noteq> []"
    and nonnull: "\<forall>e\<in>set s. e \<noteq> None"
    and run: "snd (stri_flatten conv junk s [Some x]) = Inr r"
  shows "r = [Some \<lparr>chars = concat (map (flatten_piece conv s (conv x)) [0..<length s]),
                   enc = CE_UTF8\<rparr>]"
proof -
  let ?sep = "conv x"
  let ?all = "concat (map (flatten_piece conv s ?sep) [0..<length s])"
  have live: "\<not> isNA s i" if "i < length s" for i
    using that nonnull by (simp add: isNA_nth)
  from run obtain res where
    sz: "flatten_nchar conv s (int (length ?sep)) [0..<length s] 0 = Inr res"
    unfolding stri_flatten_single [OF ne] by (auto split: sum.splits)
  have "res \<noteq> None"
  proof
    assume "res = None"
    with sz flatten_nchar_None [of conv s "int (length ?sep)" "[0..<length s]" 0]
    obtain i where "i < length s" "isNA s i" by auto
    with live show False by simp
  qed
  then obtain nchar where res: "res = Some nchar" by auto
  from flatten_nchar_Some [OF sz [unfolded res]]
  have nchar: "nchar = int (length ?all)"
    by (simp add: length_pieces)
  from run sz res obtain b cur y where
    fill: "for_each [0..<length s] (flatten_body conv s ?sep (int (length ?sep)))
             (new_chars junk nchar, 0) = Inr (b, cur)"
    and mk: "mkCharLenCE b nchar CE_UTF8 = Inr y"
    and set: "SET_STRING_ELT (allocVector 1) 0 (Some y) = Inr r"
    unfolding stri_flatten_single [OF ne] by (auto simp: ebind_eq_Inr)
  have "0 \<le> (0::int)" "nat 0 \<le> length (new_chars junk nchar)" by simp_all
  from flatten_emit [OF fill this]
  have e: "cur = 0 + int (length ?all) \<and> take (nat cur) b = take (nat 0) (new_chars junk nchar) @ ?all" .
  from e have "cur = nchar" using nchar by simp
  moreover from e [THEN conjunct2] have "take (nat cur) b = ?all" by simp
  ultimately have "take (nat nchar) b = ?all" by simp
  with mk have "y = \<lparr>chars = ?all, enc = CE_UTF8\<rparr>"
    by (simp add: mkCharLenCE_eq_Inr)
  with set show ?thesis
    by (simp add: SET_STRING_ELT_eq_Inr allocVector_def)
qed

lemma flatten_nchar_total:
  assumes "\<forall>i\<in>set js. \<not> isNA s i"
    and "0 \<le> n0" and "0 \<le> sepn"
    and "n0 + (\<Sum>i\<leftarrow>js. int (length (get conv s i))
                        + (if int i < int (length s) - 1 then sepn else 0)) \<le> INT_MAX"
  shows "flatten_nchar conv s sepn js n0
           = Inr (Some (n0 + (\<Sum>i\<leftarrow>js. int (length (get conv s i))
                        + (if int i < int (length s) - 1 then sepn else 0))))"
  using assms
proof (induction js arbitrary: n0)
  case Nil
  then show ?case by simp
next
  case (Cons i js)
  let ?f = "\<lambda>i. int (length (get conv s i)) + (if int i < int (length s) - 1 then sepn else 0)"
  have nonneg: "0 \<le> ?f j" for j using Cons.prems(3) by simp
  then have sum: "0 \<le> (\<Sum>j\<leftarrow>js. ?f j)" by (intro sum_list_nonneg) auto
  have d: "int32 (?f i) = Inr (?f i)"
    using nonneg [of i] sum Cons.prems(2,4) by (simp add: int32_def INT_MIN_def)
  have n1: "int32 (n0 + ?f i) = Inr (n0 + ?f i)"
    using nonneg [of i] sum Cons.prems(2,4) by (simp add: int32_def INT_MIN_def)
  have "flatten_nchar conv s sepn js (n0 + ?f i) = Inr (Some (n0 + ?f i + (\<Sum>j\<leftarrow>js. ?f j)))"
  proof (rule Cons.IH)
    show "\<forall>i\<in>set js. \<not> isNA s i" using Cons.prems(1) by simp
    show "0 \<le> n0 + ?f i" using nonneg [of i] Cons.prems(2) by linarith
    show "0 \<le> sepn" by (rule Cons.prems(3))
    show "n0 + ?f i + (\<Sum>j\<leftarrow>js. ?f j) \<le> INT_MAX" using Cons.prems(4) by (simp add: algebra_simps)
  qed
  with d n1 Cons.prems(1) show ?case by (simp add: algebra_simps)
qed

lemma flatten_body_total:
  assumes "0 \<le> cur"
    and "nat cur + length (flatten_piece conv s sepstr i) \<le> length b"
    and "cur + int (length (flatten_piece conv s sepstr i)) \<le> INT_MAX"
  shows "\<exists>b'. flatten_body conv s sepstr (int (length sepstr)) i (b, cur)
           = Inr (b', cur + int (length (flatten_piece conv s sepstr i)))
         \<and> length b' = length b"
proof -
  let ?x = "get conv s i"
  have rng: "INT_MIN \<le> v" if "0 \<le> v" for v using that by (simp add: INT_MIN_def)
  show ?thesis
  proof (cases "int i < int (length s) - 1 \<and> int (length sepstr) > 0")
    case True
    then have piece: "flatten_piece conv s sepstr i = ?x @ sepstr"
      by (simp add: flatten_piece_def)
    have n1: "nat (cur + int (length ?x)) = nat cur + length ?x"
      using assms(1) by (simp add: nat_add_distrib)
    from assms True show ?thesis
      unfolding piece
      by (simp add: memcpy_def int32_def INT_MIN_def n1 Let_def)
  next
    case False
    then have piece: "flatten_piece conv s sepstr i = ?x"
      by (auto simp: flatten_piece_def)
    from assms False show ?thesis
      unfolding piece
      by (auto simp: memcpy_def int32_def INT_MIN_def Let_def)
  qed
qed

lemma flatten_fill_total:
  assumes "0 \<le> cur"
    and "nat cur + length (concat (map (flatten_piece conv s sepstr) js)) \<le> length b"
    and "cur + int (length (concat (map (flatten_piece conv s sepstr) js))) \<le> INT_MAX"
  shows "\<exists>b' cur'. for_each js (flatten_body conv s sepstr (int (length sepstr))) (b, cur)
           = Inr (b', cur')"
  using assms
proof (induction js arbitrary: b cur)
  case Nil
  then show ?case by simp
next
  case (Cons i js)
  let ?p = "flatten_piece conv s sepstr i"
  have "\<exists>b1. flatten_body conv s sepstr (int (length sepstr)) i (b, cur)
           = Inr (b1, cur + int (length ?p)) \<and> length b1 = length b"
    by (rule flatten_body_total) (use Cons.prems in auto)
  then obtain b1 where
    s1: "flatten_body conv s sepstr (int (length sepstr)) i (b, cur) = Inr (b1, cur + int (length ?p))"
    and l1: "length b1 = length b"
    by blast
  have "\<exists>b' cur'. for_each js (flatten_body conv s sepstr (int (length sepstr)))
      (b1, cur + int (length ?p)) = Inr (b', cur')"
  proof (rule Cons.IH)
    show "0 \<le> cur + int (length ?p)" using Cons.prems(1) by simp
    show "nat (cur + int (length ?p)) + length (concat (map (flatten_piece conv s sepstr) js))
        \<le> length b1"
      using Cons.prems(1,2) l1 by (simp add: nat_add_distrib)
    show "cur + int (length ?p) + int (length (concat (map (flatten_piece conv s sepstr) js)))
        \<le> INT_MAX"
      using Cons.prems(3) by simp
  qed
  with s1 show ?case by simp
qed

text \<open>
  \<^verbatim>\<open>stri_flatten\<close> returns whenever the bytes of the result can be counted in an
  \<^verbatim>\<open>int\<close>.
\<close>

lemma stri_flatten_returns:
  assumes ne: "s \<noteq> []"
    and nonnull: "\<forall>e\<in>set s. e \<noteq> None"
    and fits: "int (length (concat (map (flatten_piece conv s (conv x)) [0..<length s])))
                 \<le> INT_MAX"
  shows "stri_flatten conv junk s [Some x] =
     ([], Inr [Some \<lparr>chars = concat (map (flatten_piece conv s (conv x)) [0..<length s]),
                     enc = CE_UTF8\<rparr>])"
proof -
  let ?sep = "conv x"
  let ?all = "concat (map (flatten_piece conv s ?sep) [0..<length s])"
  have live: "\<forall>i\<in>set [0..<length s]. \<not> isNA s i"
    using nonnull by (simp add: isNA_nth)
  have "flatten_nchar conv s (int (length ?sep)) [0..<length s] 0
      = Inr (Some (0 + (\<Sum>i\<leftarrow>[0..<length s]. int (length (get conv s i))
             + (if int i < int (length s) - 1 then int (length ?sep) else 0))))"
    by (rule flatten_nchar_total [OF live]) (use fits in \<open>simp_all add: length_pieces\<close>)
  then have sz: "flatten_nchar conv s (int (length ?sep)) [0..<length s] 0
      = Inr (Some (int (length ?all)))"
    by (simp add: length_pieces)
  have "\<exists>b' cur'. for_each [0..<length s] (flatten_body conv s ?sep (int (length ?sep)))
      (new_chars junk (int (length ?all)), 0) = Inr (b', cur')"
    by (rule flatten_fill_total) (use fits in \<open>simp_all add: new_chars_def\<close>)
  then obtain b' cur' where
    fill: "for_each [0..<length s] (flatten_body conv s ?sep (int (length ?sep)))
      (new_chars junk (int (length ?all)), 0) = Inr (b', cur')"
    by blast
  have "0 \<le> (0::int)" "nat 0 \<le> length (new_chars junk (int (length ?all)))" by simp_all
  from flatten_emit [OF fill this]
  have e: "cur' = 0 + int (length ?all)
      \<and> take (nat cur') b' = take (nat 0) (new_chars junk (int (length ?all))) @ ?all" .
  then have c: "cur' = int (length ?all)" by simp
  from e [THEN conjunct2] have tk: "take (length ?all) b' = ?all" by (simp add: c)
  have "length (take (length ?all) b') = length ?all" by (simp only: tk)
  then have "length ?all \<le> length b'" by simp
  with tk have "mkCharLenCE b' (int (length ?all)) CE_UTF8 = Inr \<lparr>chars = ?all, enc = CE_UTF8\<rparr>"
    by (simp add: mkCharLenCE_def)
  with sz fill show ?thesis
    by (simp add: stri_flatten_single [OF ne] SET_STRING_ELT_def allocVector_def)
qed

lemma stri_flatten_nonempty:
  assumes "s \<noteq> []" and "sep \<noteq> []"
  shows "stri_flatten conv junk s sep =
     (if 1 < length sep then [MSG__COLLAPSE_EXPECTED1] else [],
      case sep ! 0 of
        None \<Rightarrow> Inr [None]
      | Some x \<Rightarrow> snd (stri_flatten conv junk s [Some x]))"
proof (cases "1 < length sep")
  case True
  with assms show ?thesis
    by (simp add: stri_flatten_single stri_flatten_def [of conv junk s sep] Let_def
          stri__vector_NA_strings_def split: option.splits sum.splits)
next
  case False
  with assms(2) obtain a where sep: "sep = [a]"
    by (cases sep) (auto simp: not_less)
  show ?thesis
  proof (cases a)
    case None
    with assms(1) show ?thesis
      unfolding sep
      by (simp add: stri_flatten_def [of conv junk s "[None]"] Let_def
            stri__vector_NA_strings_def)
  next
    case (Some x)
    then show ?thesis
      unfolding sep by (simp add: stri_flatten_single [OF assms(1)])
  qed
qed

text \<open>A null element ends the sizing loop of either form.\<close>

lemma flatten_nosep_nchar_Some:
  "flatten_nosep_nchar conv s js n0 = Inr (Some n) \<Longrightarrow> \<forall>i\<in>set js. \<not> isNA s i"
  by (induction js arbitrary: n0) (auto split: if_splits sum.splits)

lemma flatten_nchar_null:
  assumes "None \<in> set s"
    and "flatten_nchar conv s sepn [0..<length s] 0 = Inr res"
  shows "res = None"
proof (cases res)
  case (Some nchar)
  from assms(1) obtain i where i: "i < length s" "s ! i = None"
    by (auto simp: in_set_conv_nth)
  from flatten_nchar_Some [OF assms(2) [unfolded Some]] have "\<not> isNA s i" using i(1) by simp
  with i show ?thesis by (simp add: isNA_nth)
qed simp

lemma flatten_nosep_nchar_null:
  assumes "None \<in> set s"
    and "flatten_nosep_nchar conv s [0..<length s] 0 = Inr res"
  shows "res = None"
proof (cases res)
  case (Some nchar)
  from assms(1) obtain i where i: "i < length s" "s ! i = None"
    by (auto simp: in_set_conv_nth)
  from flatten_nosep_nchar_Some [OF assms(2) [unfolded Some]] have "\<not> isNA s i"
    using i(1) by simp
  with i show ?thesis by (simp add: isNA_nth)
qed simp

text \<open>
  With a null element, either form returns the one null whenever the byte
  lengths fit an \<^verbatim>\<open>int\<close>.
\<close>

lemma flatten_nchar_null_total:
  assumes "\<exists>i\<in>set js. isNA s i"
    and "0 \<le> n0" and "0 \<le> sepn"
    and "n0 + (\<Sum>i\<leftarrow>js. int (length (get conv s i))
                        + (if int i < int (length s) - 1 then sepn else 0)) \<le> INT_MAX"
  shows "flatten_nchar conv s sepn js n0 = Inr None"
  using assms
proof (induction js arbitrary: n0)
  case Nil
  then show ?case by simp
next
  case (Cons i js)
  let ?f = "\<lambda>i. int (length (get conv s i)) + (if int i < int (length s) - 1 then sepn else 0)"
  show ?case
  proof (cases "isNA s i")
    case True
    then show ?thesis by simp
  next
    case False
    have nonneg: "0 \<le> ?f j" for j using Cons.prems(3) by simp
    then have sum: "0 \<le> (\<Sum>j\<leftarrow>js. ?f j)" by (intro sum_list_nonneg) auto
    have d: "int32 (?f i) = Inr (?f i)"
      using nonneg [of i] sum Cons.prems(2,4) by (simp add: int32_def INT_MIN_def)
    have n1: "int32 (n0 + ?f i) = Inr (n0 + ?f i)"
      using nonneg [of i] sum Cons.prems(2,4) by (simp add: int32_def INT_MIN_def)
    have "flatten_nchar conv s sepn js (n0 + ?f i) = Inr None"
    proof (rule Cons.IH)
      show "\<exists>i\<in>set js. isNA s i" using Cons.prems(1) False by simp
      show "0 \<le> n0 + ?f i" using nonneg [of i] Cons.prems(2) by linarith
      show "0 \<le> sepn" by (rule Cons.prems(3))
      show "n0 + ?f i + (\<Sum>j\<leftarrow>js. ?f j) \<le> INT_MAX"
        using Cons.prems(4) by (simp add: algebra_simps)
    qed
    with d n1 False show ?thesis by (simp add: algebra_simps)
  qed
qed

lemma flatten_nosep_nchar_null_total:
  assumes "\<exists>i\<in>set js. isNA s i"
    and "0 \<le> n0"
    and "n0 + (\<Sum>i\<leftarrow>js. int (length (get conv s i))) \<le> INT_MAX"
  shows "flatten_nosep_nchar conv s js n0 = Inr None"
  using assms
proof (induction js arbitrary: n0)
  case Nil
  then show ?case by simp
next
  case (Cons i js)
  let ?f = "\<lambda>i. int (length (get conv s i))"
  show ?case
  proof (cases "isNA s i")
    case True
    then show ?thesis by simp
  next
    case False
    have sum: "0 \<le> (\<Sum>j\<leftarrow>js. ?f j)" by (intro sum_list_nonneg) auto
    have n1: "int32 (n0 + ?f i) = Inr (n0 + ?f i)"
      using sum Cons.prems(2,3) by (simp add: int32_def INT_MIN_def)
    have "flatten_nosep_nchar conv s js (n0 + ?f i) = Inr None"
    proof (rule Cons.IH)
      show "\<exists>i\<in>set js. isNA s i" using Cons.prems(1) False by simp
      show "0 \<le> n0 + ?f i" using Cons.prems(2) by linarith
      show "n0 + ?f i + (\<Sum>j\<leftarrow>js. ?f j) \<le> INT_MAX"
        using Cons.prems(3) by (simp add: algebra_simps)
    qed
    with n1 False show ?thesis by (simp add: algebra_simps)
  qed
qed

lemma length_concat_get:
  "int (length (concat (map (get conv s) js))) = (\<Sum>i\<leftarrow>js. int (length (get conv s i)))"
  by (induction js) simp_all

lemma null_isNA:
  assumes "None \<in> set s"
  shows "\<exists>i\<in>set [0..<length s]. isNA s i"
proof -
  from assms obtain i where "i < length s" "s ! i = None"
    by (auto simp: in_set_conv_nth)
  then show ?thesis by (auto simp: isNA_nth)
qed

lemma stri_flatten_null_returns:
  assumes ne: "s \<noteq> []"
    and null: "None \<in> set s"
    and fits: "int (length (concat (map (flatten_piece conv s (conv x)) [0..<length s])))
                 \<le> INT_MAX"
  shows "stri_flatten conv junk s [Some x] = ([], Inr [None])"
proof -
  have "flatten_nchar conv s (int (length (conv x))) [0..<length s] 0 = Inr None"
    by (rule flatten_nchar_null_total [OF null_isNA [OF null]])
       (use fits in \<open>simp_all add: length_pieces\<close>)
  then show ?thesis by (simp add: stri_flatten_single [OF ne])
qed

lemma stri_flatten_nosep_null_returns:
  assumes ne: "s \<noteq> []"
    and null: "None \<in> set s"
    and fits: "int (length (concat (map (get conv s) [0..<length s]))) \<le> INT_MAX"
  shows "stri_flatten_nosep conv junk s = Inr [None]"
proof -
  have "flatten_nosep_nchar conv s [0..<length s] 0 = Inr None"
    by (rule flatten_nosep_nchar_null_total [OF null_isNA [OF null]])
       (use fits in \<open>simp_all add: length_concat_get\<close>)
  with ne show ?thesis
    by (simp add: stri_flatten_nosep_def Let_def stri__vector_NA_strings_def)
qed

section \<open>Duplicate: the scratch buffer\<close>

text \<open>
  Where the sizing loop of \<^verbatim>\<open>stri_dup\<close> is defined (no product leaves the range
  of \<^verbatim>\<open>int\<close>), \<open>bufsize\<close> is the greatest of 0 and the products
  \<open>ci * byte_len(si)\<close> of the slots where neither \<open>si\<close> nor \<open>ci\<close> is null (slots
  with \<open>ci < 0\<close> are among them), and the emission loop, run on a scratch buffer
  of exactly \<open>bufsize\<close> bytes, is defined: no copy and no read touches an offset
  from \<open>bufsize\<close> on, whatever the counts.
\<close>

lemma dup_scratch_bound:
  assumes "for_each [0..<stri__recycling_rule (length s) (length c)] (dup_bufsize_body conv s c) 0
             = Inr bufsize"
    and "set ord \<subseteq> {0..<stri__recycling_rule (length s) (length c)}"
    and "int (length b) = bufsize"
  shows "bufsize = Max (insert 0
            {sint (c ! (i mod length c)) * int (length (get conv s i)) | i.
               i < stri__recycling_rule (length s) (length c)
               \<and> \<not> isNA s i \<and> c ! (i mod length c) \<noteq> NA_INTEGER})
       \<and> (\<exists>st. for_each ord (dup_body conv s c)
                  (allocVector (stri__recycling_rule (length s) (length c)), b, None, 0)
                = Inr st)"
proof -
  let ?n = "stri__recycling_rule (length s) (length c)"
  from dup_bufsize_loop [OF assms(1)]
  have mx: "bufsize = Max (insert 0 (dup_need conv s c ` {i \<in> set [0..<?n]. dup_live s c i}))"
    and rng: "\<forall>i\<in>set [0..<?n]. dup_live s c i \<longrightarrow>
         INT_MIN \<le> dup_need conv s c i \<and> dup_need conv s c i \<le> INT_MAX"
    by simp_all
  have set: "dup_need conv s c ` {i \<in> set [0..<?n]. dup_live s c i}
      = {sint (c ! (i mod length c)) * int (length (get conv s i)) | i.
           i < ?n \<and> \<not> isNA s i \<and> c ! (i mod length c) \<noteq> NA_INTEGER}"
    by (auto simp: dup_need_def dup_live_def)
  have le: "dup_need conv s c i \<le> bufsize" if "i < ?n" "dup_live s c i" for i
    unfolding mx using that by (intro Max_ge) auto
  have top: "bufsize \<le> INT_MAX"
  proof -
    have "bufsize \<in> insert 0 (dup_need conv s c ` {i \<in> set [0..<?n]. dup_live s c i})"
      unfolding mx by (rule Max_in) simp_all
    with rng show ?thesis by (auto simp: INT_MAX_def)
  qed
  have "\<exists>r b' ls li. for_each ord (dup_body conv s c) (allocVector ?n, b, None, 0)
             = Inr (r, b', ls, li)
           \<and> length r = ?n \<and> (\<forall>i\<in>set ord. r ! i = dup_naive_slot conv s c i)"
  proof (rule dup_emit [where B = "length b"])
    show "length (allocVector ?n) = ?n" by (simp add: allocVector_def)
    show "length b \<le> length b" by simp
    show "set ord \<subseteq> {0..<?n}" by (rule assms(2))
    show "dup_need conv s c i \<le> int (length b)" if "i \<in> set ord" "dup_live s c i" for i
      using le [of i] that assms(2,3) by auto
    show "int (length b) \<le> INT_MAX" using top assms(3) by simp
  qed
  then show ?thesis using mx unfolding set by blast
qed

text \<open>A negative count among the slots; the scratch buffer has the 6 bytes of \<open>bufsize\<close>.\<close>

lemma dup_scratch_bound_example:
  "for_each [0..<3] (dup_bufsize_body chars
       [Some \<lparr>chars = ''ab'', enc = CE_UTF8\<rparr>, Some \<lparr>chars = ''x'', enc = CE_UTF8\<rparr>] [3, - 4, 2]) 0
     = Inr 6
   \<and> (\<exists>st. for_each [0, 2, 1] (dup_body chars
         [Some \<lparr>chars = ''ab'', enc = CE_UTF8\<rparr>, Some \<lparr>chars = ''x'', enc = CE_UTF8\<rparr>] [3, - 4, 2])
           (allocVector 3, ''??????'', None, 0) = Inr st)"
proof -
  let ?s = "[Some \<lparr>chars = ''ab'', enc = CE_UTF8\<rparr>, Some \<lparr>chars = ''x'', enc = CE_UTF8\<rparr>]"
  let ?c = "[3, - 4, 2] :: 32 word list"
  have n: "stri__recycling_rule (length ?s) (length ?c) = 3"
    by (simp add: stri__recycling_rule_def)
  have pre: "for_each [0..<3] (dup_bufsize_body chars ?s ?c) 0 = Inr 6"
    by code_simp
  have ord: "set [0, 2, 1] \<subseteq> {0..<3::nat}" by auto
  have len: "int (length ''??????'') = 6" by simp
  from dup_scratch_bound [of ?s ?c chars 6 "[0, 2, 1]" "''??????''", unfolded n, OF pre ord len] pre
  show ?thesis by blast
qed

text \<open>
  The sizing loop starts from 0: for \<open>duplicate(["a"], [-1])\<close> the one slot is
  not skipped and its product is \<open>-1\<close>, the greatest over the slots, and
  \<open>bufsize\<close> is 0.
\<close>

lemma dup_bufsize_floor:
  "for_each [0..<stri__recycling_rule (length [Some \<lparr>chars = ''a'', enc = CE_UTF8\<rparr>])
                 (length [- 1 :: 32 word])]
     (dup_bufsize_body chars [Some \<lparr>chars = ''a'', enc = CE_UTF8\<rparr>] [- 1]) 0 = Inr 0
   \<and> Max {sint ([- 1 :: 32 word] ! (i mod length [- 1 :: 32 word]))
            * int (length (get chars [Some \<lparr>chars = ''a'', enc = CE_UTF8\<rparr>] i)) | i.
            i < stri__recycling_rule (length [Some \<lparr>chars = ''a'', enc = CE_UTF8\<rparr>])
                  (length [- 1 :: 32 word])
            \<and> \<not> isNA [Some \<lparr>chars = ''a'', enc = CE_UTF8\<rparr>] i
            \<and> [- 1 :: 32 word] ! (i mod length [- 1 :: 32 word]) \<noteq> NA_INTEGER} = - 1"
proof -
  let ?s = "[Some \<lparr>chars = ''a'', enc = CE_UTF8\<rparr>]"
  let ?c = "[- 1] :: 32 word list"
  have n: "stri__recycling_rule (length ?s) (length ?c) = 1"
    by (simp add: stri__recycling_rule_def)
  have pre: "for_each [0..<1] (dup_bufsize_body chars ?s ?c) 0 = Inr 0"
    by code_simp
  have "{sint (?c ! (i mod length ?c)) * int (length (get chars ?s i)) | i.
            i < 1 \<and> \<not> isNA ?s i \<and> ?c ! (i mod length ?c) \<noteq> NA_INTEGER} = {- 1}"
    by (auto simp: isNA_def get_def NA_INTEGER_def)
  with pre show ?thesis unfolding n by simp
qed

text \<open>
  The two readings of \<^verbatim>\<open>R_len_t\<close> agree wherever the first is defined: what
  \<^verbatim>\<open>stri_dup\<close> returns, \<^verbatim>\<open>stri_dup\<close> on 32-bit words returns.
\<close>

lemma sint_of_int32:
  assumes "INT_MIN \<le> x" and "x \<le> INT_MAX"
  shows "sint (word_of_int x :: 32 word) = x"
  using assms
  by (simp add: sint_sbintrunc' INT_MIN_def INT_MAX_def signed_take_bit_int_eq_self)

lemma for_each_sim:
  assumes "for_each js body st = Inr st'"
    and "R st stw"
    and step: "\<And>i a a' aw. body i a = Inr a' \<Longrightarrow> R a aw
                 \<Longrightarrow> \<exists>aw'. bodyw i aw = Inr aw' \<and> R a' aw'"
  shows "\<exists>stw'. for_each js bodyw stw = Inr stw' \<and> R st' stw'"
  using assms(1,2)
proof (induction js arbitrary: st stw)
  case Nil
  then show ?case by simp
next
  case (Cons i js)
  from Cons.prems(1) obtain a where a: "body i st = Inr a" and rest: "for_each js body a = Inr st'"
    by (auto split: sum.splits)
  from step [OF a Cons.prems(2)] obtain aw where aw: "bodyw i stw = Inr aw" and R: "R a aw"
    by blast
  from Cons.IH [OF rest R] aw show ?case by simp
qed

lemma dup_bufsize_body_w_agrees:
  assumes run: "dup_bufsize_body conv s c i b = Inr b'"
    and rng: "INT_MIN \<le> b" "b \<le> INT_MAX"
  shows "dup_bufsize_body_w conv s c i (word_of_int b) = Inr (word_of_int b')
     \<and> INT_MIN \<le> b' \<and> b' \<le> INT_MAX"
proof (cases "isNA s i \<or> c ! (i mod length c) = NA_INTEGER")
  case True
  with run rng show ?thesis by (auto simp: dup_bufsize_body_def dup_bufsize_body_w_def)
next
  case False
  let ?p = "sint (c ! (i mod length c)) * int (length (get conv s i))"
  from run False have p: "INT_MIN \<le> ?p" "?p \<le> INT_MAX"
    and b': "b' = (if ?p > b then ?p else b)"
    by (auto simp: dup_bufsize_body_def ebind_eq_Inr int32_eq_Inr)
  have w: "c ! (i mod length c) * word_of_nat (length (get conv s i)) = (word_of_int ?p :: 32 word)"
    by simp
  have sp: "sint (word_of_int ?p :: 32 word) = ?p" by (rule sint_of_int32 [OF p])
  have sb: "sint (word_of_int b :: 32 word) = b" by (rule sint_of_int32 [OF rng])
  from False have "dup_bufsize_body_w conv s c i (word_of_int b)
      = Inr (if sint (word_of_int ?p :: 32 word) > sint (word_of_int b :: 32 word)
             then word_of_int ?p else word_of_int b)"
    unfolding dup_bufsize_body_w_def w by (simp add: Let_def)
  with b' p rng show ?thesis unfolding sp sb by auto
qed

lemma dup_paste_w_agrees:
  assumes "dup_paste cs cl mi buf li = Inr (b', li')"
    and "0 < cl" and "cl \<le> INT_MAX"
    and "INT_MIN \<le> mi" and "mi \<le> INT_MAX"
    and "INT_MIN \<le> li" and "li \<le> INT_MAX"
  shows "dup_paste_w cs (word_of_int cl) (word_of_int mi) buf (word_of_int li)
           = Inr (b', word_of_int li')
     \<and> INT_MIN \<le> li' \<and> li' \<le> INT_MAX"
  using assms
proof (induction cs cl mi buf li rule: dup_paste.induct)
  case (1 cs cl mi buf li)
  have scl: "sint (word_of_int cl :: 32 word) = cl"
    using "1.prems"(2,3) by (intro sint_of_int32) (simp_all add: INT_MIN_def)
  have smi: "sint (word_of_int mi :: 32 word) = mi"
    using "1.prems"(4,5) by (rule sint_of_int32)
  have sli: "sint (word_of_int li :: 32 word) = li"
    using "1.prems"(6,7) by (rule sint_of_int32)
  show ?case
  proof (cases "li < mi")
    case False
    with "1.prems"(1) have "b' = buf" "li' = li" by (simp_all add: dup_paste_stop)
    moreover from False have "dup_paste_w cs (word_of_int cl) (word_of_int mi) buf (word_of_int li)
        = Inr (buf, word_of_int li)"
      by (subst dup_paste_w.simps) (simp add: smi sli)
    ultimately show ?thesis using "1.prems"(6,7) by simp
  next
    case True
    from "1.prems"(1) True "1.prems"(2) obtain b1 l1 where
      cp: "memcpy buf li cs cl = Inr b1" and inc: "int32 (li + cl) = Inr l1"
      and rest: "dup_paste cs cl mi b1 l1 = Inr (b', li')"
      by (subst (asm) dup_paste.simps) (auto split: sum.splits)
    from inc have l1: "l1 = li + cl" "INT_MIN \<le> l1" "l1 \<le> INT_MAX"
      by (auto simp: int32_eq_Inr)
    from True "1.prems"(2) have go: "li < mi \<and> 0 < cl" by simp
    have ih: "dup_paste_w cs (word_of_int cl) (word_of_int mi) b1 (word_of_int l1)
           = Inr (b', word_of_int li') \<and> INT_MIN \<le> li' \<and> li' \<le> INT_MAX"
      by (rule "1.IH" [OF go cp inc rest "1.prems"(2,3,4,5) l1(2,3)])
    have "dup_paste_w cs (word_of_int cl) (word_of_int mi) buf (word_of_int li)
        = dup_paste_w cs (word_of_int cl) (word_of_int mi) b1 (word_of_int li + word_of_int cl)"
      by (subst dup_paste_w.simps) (simp add: scl smi sli go cp)
    also have "word_of_int li + word_of_int cl = (word_of_int l1 :: 32 word)"
      by (simp add: l1(1))
    finally show ?thesis using ih by simp
  qed
qed

lemma dup_body_w_null:
  assumes run: "dup_body conv s c i (ret, buf, ls, li) = Inr (ret', buf', ls', li')"
    and null: "isNA s i \<or> c ! (i mod length c) = NA_INTEGER \<or> sint (c ! (i mod length c)) < 0"
  shows "dup_body_w conv s c i (ret, buf, ls, word_of_int li)
           = Inr (ret', buf', ls', word_of_int li') \<and> li' = li"
proof -
  from null have eq: "dup_body conv s c i (ret, buf, ls, li)
      = ebind (SET_STRING_ELT ret i None) (\<lambda>ret'. Inr (ret', buf, ls, li))"
    by (simp add: Let_def)
  from run have "ebind (SET_STRING_ELT ret i None) (\<lambda>ret'. Inr (ret', buf, ls, li))
      = Inr (ret', buf', ls', li')"
    by (simp only: eq)
  then obtain r1 where r1: "SET_STRING_ELT ret i None = Inr r1"
    and res: "ret' = r1" "buf' = buf" "ls' = ls" "li' = li"
    by (auto simp: ebind_eq_Inr)
  from null have "dup_body_w conv s c i (ret, buf, ls, word_of_int li)
      = ebind (SET_STRING_ELT ret i None) (\<lambda>ret'. Inr (ret', buf, ls, word_of_int li))"
    by (simp add: Let_def)
  with r1 res show ?thesis by simp
qed

lemma dup_body_w_blank:
  assumes run: "dup_body conv s c i (ret, buf, ls, li) = Inr (ret', buf', ls', li')"
    and live: "\<not> (isNA s i \<or> c ! (i mod length c) = NA_INTEGER \<or> sint (c ! (i mod length c)) < 0)"
    and blank: "sint (c ! (i mod length c)) \<le> 0 \<or> length (get conv s i) = 0"
  shows "dup_body_w conv s c i (ret, buf, ls, word_of_int li)
           = Inr (ret', buf', ls', word_of_int li') \<and> li' = li"
proof -
  from blank have b1: "sint (c ! (i mod length c)) \<le> 0 \<or> int (length (get conv s i)) \<le> 0"
    by auto
  from blank have b2: "sint (c ! (i mod length c)) \<le> 0
      \<or> sint (word_of_nat (length (get conv s i)) :: 32 word) \<le> 0"
    by auto
  from live b1 have eq: "dup_body conv s c i (ret, buf, ls, li)
      = ebind (mkCharLen [] 0) (\<lambda>x. ebind (SET_STRING_ELT ret i (Some x)) (\<lambda>ret'.
          Inr (ret', buf, ls, li)))"
    by (simp add: Let_def)
  from run have "ebind (mkCharLen [] 0) (\<lambda>x. ebind (SET_STRING_ELT ret i (Some x)) (\<lambda>ret'.
          Inr (ret', buf, ls, li))) = Inr (ret', buf', ls', li')"
    by (simp only: eq)
  then obtain x r1 where x: "mkCharLen [] 0 = Inr x"
    and r1: "SET_STRING_ELT ret i (Some x) = Inr r1"
    and res: "ret' = r1" "buf' = buf" "ls' = ls" "li' = li"
    by (auto simp: ebind_eq_Inr)
  from live b2 have "dup_body_w conv s c i (ret, buf, ls, word_of_int li)
      = ebind (mkCharLen [] 0) (\<lambda>x. ebind (SET_STRING_ELT ret i (Some x)) (\<lambda>ret'.
          Inr (ret', buf, ls, word_of_int li)))"
    by (simp add: Let_def)
  with x r1 res show ?thesis by simp
qed

lemma dup_body_w_copy:
  assumes run: "dup_body conv s c i (ret, buf, ls, li) = Inr (ret', buf', ls', li')"
    and rng: "INT_MIN \<le> li" "li \<le> INT_MAX"
    and live: "\<not> (isNA s i \<or> c ! (i mod length c) = NA_INTEGER \<or> sint (c ! (i mod length c)) < 0)"
    and cd: "0 < sint (c ! (i mod length c))"
    and len: "0 < length (get conv s i)"
  shows "dup_body_w conv s c i (ret, buf, ls, word_of_int li)
           = Inr (ret', buf', ls', word_of_int li')
     \<and> INT_MIN \<le> li' \<and> li' \<le> INT_MAX"
proof -
  let ?cd = "c ! (i mod length c)"
  let ?cs = "get conv s i"
  let ?cl = "int (length ?cs)"
  define ls1 where "ls1 = (if Some (identity s i) \<noteq> ls then Some (identity s i) else ls)"
  define li1 where "li1 = (if Some (identity s i) \<noteq> ls then 0 else li)"
  define mx where "mx = ?cl * sint ?cd"
  from cd len have pos: "\<not> (sint ?cd \<le> 0 \<or> ?cl \<le> 0)" by simp
  from live pos have eq: "dup_body conv s c i (ret, buf, ls, li)
      = ebind (int32 mx) (\<lambda>max_index.
        ebind (dup_paste ?cs ?cl max_index buf li1) (\<lambda>(buf', last_index').
        ebind (mkCharLenCE buf' max_index CE_UTF8) (\<lambda>x.
        ebind (SET_STRING_ELT ret i (Some x)) (\<lambda>ret'.
          Inr (ret', buf', ls1, last_index')))))"
    unfolding ls1_def li1_def mx_def by (simp add: Let_def del: of_nat_mult)
  from run have "ebind (int32 mx) (\<lambda>max_index.
        ebind (dup_paste ?cs ?cl max_index buf li1) (\<lambda>(buf', last_index').
        ebind (mkCharLenCE buf' max_index CE_UTF8) (\<lambda>x.
        ebind (SET_STRING_ELT ret i (Some x)) (\<lambda>ret'.
          Inr (ret', buf', ls1, last_index'))))) = Inr (ret', buf', ls', li')"
    by (simp only: eq)
  then obtain x where
    mxr: "INT_MIN \<le> mx" "mx \<le> INT_MAX"
    and paste: "dup_paste ?cs ?cl mx buf li1 = Inr (buf', li')"
    and mk: "mkCharLenCE buf' mx CE_UTF8 = Inr x"
    and set: "SET_STRING_ELT ret i (Some x) = Inr ret'"
    and ls': "ls' = ls1"
    by (auto simp: ebind_eq_Inr int32_eq_Inr)
  have "?cl * 1 \<le> ?cl * sint ?cd" using cd by (intro mult_left_mono) simp_all
  with mxr(2) have cl: "?cl \<le> INT_MAX" by (simp add: mx_def)
  have clpos: "0 < ?cl" using len by simp
  have "INT_MIN \<le> ?cl" using clpos by (simp add: INT_MIN_def)
  from sint_of_int32 [OF this cl]
  have scl: "sint (word_of_nat (length ?cs) :: 32 word) = ?cl" by simp
  have wmx: "(word_of_nat (length ?cs) :: 32 word) * ?cd = word_of_int mx"
    by (simp add: mx_def)
  have smx: "sint (word_of_int mx :: 32 word) = mx"
    by (rule sint_of_int32 [OF mxr])
  have li1: "INT_MIN \<le> li1" "li1 \<le> INT_MAX"
    using rng by (auto simp: li1_def INT_MIN_def INT_MAX_def)
  from dup_paste_w_agrees [OF paste clpos cl mxr li1]
  have pw: "dup_paste_w ?cs (word_of_int ?cl) (word_of_int mx) buf (word_of_int li1)
              = Inr (buf', word_of_int li')"
    and li': "INT_MIN \<le> li'" "li' \<le> INT_MAX"
    by simp_all
  have wl: "(word_of_int ?cl :: 32 word) = word_of_nat (length ?cs)" by simp
  have wli1: "(if Some (identity s i) \<noteq> ls then 0 else word_of_int li) = (word_of_int li1 :: 32 word)"
    by (simp add: li1_def)
  from cd scl clpos have posw: "\<not> (sint ?cd \<le> 0 \<or> sint (word_of_nat (length ?cs) :: 32 word) \<le> 0)"
    by simp
  from live posw have "dup_body_w conv s c i (ret, buf, ls, word_of_int li)
      = ebind (dup_paste_w ?cs (word_of_nat (length ?cs))
                 (word_of_nat (length ?cs) * ?cd) buf
                 (if Some (identity s i) \<noteq> ls then 0 else word_of_int li))
          (\<lambda>(buf', last_index').
        ebind (mkCharLenCE buf' (sint (word_of_nat (length ?cs) * ?cd :: 32 word)) CE_UTF8) (\<lambda>x.
        ebind (SET_STRING_ELT ret i (Some x)) (\<lambda>ret'.
          Inr (ret', buf', ls1, last_index'))))"
    unfolding ls1_def by (simp add: Let_def)
  also have "\<dots> = Inr (ret', buf', ls', word_of_int li')"
    unfolding wmx wli1 smx using pw [unfolded wl] mk set ls' by simp
  finally show ?thesis using li' by simp
qed

lemma dup_body_w_agrees:
  assumes run: "dup_body conv s c i (ret, buf, ls, li) = Inr (ret', buf', ls', li')"
    and rng: "INT_MIN \<le> li" "li \<le> INT_MAX"
  shows "dup_body_w conv s c i (ret, buf, ls, word_of_int li)
           = Inr (ret', buf', ls', word_of_int li')
     \<and> INT_MIN \<le> li' \<and> li' \<le> INT_MAX"
proof -
  let ?cd = "c ! (i mod length c)"
  let ?cs = "get conv s i"
  consider (null) "isNA s i \<or> ?cd = NA_INTEGER \<or> sint ?cd < 0"
    | (blank) "\<not> (isNA s i \<or> ?cd = NA_INTEGER \<or> sint ?cd < 0)"
        "sint ?cd \<le> 0 \<or> length ?cs = 0"
    | (copy) "\<not> (isNA s i \<or> ?cd = NA_INTEGER \<or> sint ?cd < 0)"
        "0 < sint ?cd" "0 < length ?cs"
    by fastforce
  then show ?thesis
  proof cases
    case null
    from dup_body_w_null [OF run null] rng show ?thesis by simp
  next
    case blank
    from dup_body_w_blank [OF run blank] rng show ?thesis by simp
  next
    case copy
    from run rng copy show ?thesis by (rule dup_body_w_copy)
  qed
qed

lemma stri_dup_w_agrees:
  assumes run: "stri_dup conv junk ord s c = Inr r"
  shows "stri_dup_w conv junk ord s c = Inr r"
proof (cases "stri__recycling_rule (length s) (length c) = 0")
  case True
  with run show ?thesis by (simp add: stri_dup_def stri_dup_w_def)
next
  case False
  let ?n = "stri__recycling_rule (length s) (length c)"
  from run False obtain bufsize ret buf ls li where
    sz: "for_each [0..<?n] (dup_bufsize_body conv s c) 0 = Inr bufsize"
    and n: "INT_MIN \<le> bufsize + 1" "bufsize + 1 \<le> INT_MAX"
    and em: "for_each ord (dup_body conv s c) (allocVector ?n, new_chars junk (bufsize + 1), None, 0)
               = Inr (ret, buf, ls, li)"
    and r: "r = ret"
    by (auto simp: stri_dup_def Let_def ebind_eq_Inr int32_eq_Inr)
  from dup_bufsize_loop [OF sz] have "bufsize = Max (insert 0
      (dup_need conv s c ` {i \<in> set [0..<?n]. dup_live s c i}))"
    by simp
  then have nonneg: "0 \<le> bufsize" by simp
  have "\<exists>bw. for_each [0..<?n] (dup_bufsize_body_w conv s c) (word_of_int 0) = Inr bw
      \<and> (bw = word_of_int bufsize \<and> INT_MIN \<le> bufsize \<and> bufsize \<le> INT_MAX)"
    by (rule for_each_sim [OF sz,
          where R = "\<lambda>b bw. bw = word_of_int b \<and> INT_MIN \<le> b \<and> b \<le> INT_MAX"])
       (auto simp: INT_MIN_def INT_MAX_def dest: dup_bufsize_body_w_agrees [unfolded INT_MIN_def INT_MAX_def])
  then have szw: "for_each [0..<?n] (dup_bufsize_body_w conv s c) 0 = Inr (word_of_int bufsize)"
    by simp
  have sn: "sint (word_of_int bufsize + 1 :: 32 word) = bufsize + 1"
    using sint_of_int32 [OF n] by simp
  let ?R = "\<lambda>(st :: dup_state) (stw :: dup_state_w).
      case st of (ret, buf, ls, li) \<Rightarrow>
        stw = (ret, buf, ls, word_of_int li) \<and> INT_MIN \<le> li \<and> li \<le> INT_MAX"
  have "\<exists>stw. for_each ord (dup_body_w conv s c)
          (allocVector ?n, new_chars junk (bufsize + 1), None, 0) = Inr stw
      \<and> ?R (ret, buf, ls, li) stw"
  proof (rule for_each_sim [OF em, where R = ?R])
    show "?R (allocVector ?n, new_chars junk (bufsize + 1), None, 0)
        (allocVector ?n, new_chars junk (bufsize + 1), None, 0)"
      by (simp add: INT_MIN_def INT_MAX_def)
  next
    fix i and a a' :: dup_state and aw :: dup_state_w
    assume step: "dup_body conv s c i a = Inr a'" and rel: "?R a aw"
    obtain r0 b0 l0 i0 where a: "a = (r0, b0, l0, i0)" by (cases a)
    obtain r1 b1 l1 i1 where a': "a' = (r1, b1, l1, i1)" by (cases a')
    from rel a have aw: "aw = (r0, b0, l0, word_of_int i0)"
      and rng: "INT_MIN \<le> i0" "i0 \<le> INT_MAX"
      by simp_all
    from dup_body_w_agrees [OF step [unfolded a a'] rng]
    show "\<exists>aw'. dup_body_w conv s c i aw = Inr aw' \<and> ?R a' aw'"
      unfolding a' aw by simp
  qed
  then have emw: "for_each ord (dup_body_w conv s c)
          (allocVector ?n, new_chars junk (bufsize + 1), None, 0)
        = Inr (ret, buf, ls, word_of_int li)"
    by simp
  from False szw emw nonneg show ?thesis
    by (simp add: stri_dup_w_def Let_def sn r)
qed

section \<open>Duplicate: the claims\<close>





text \<open>
  Claim C6 fails at \<open>duplicate(["abcdefghi"], [954437177])\<close>. The one slot
  needs \<open>954437177 * 9 = 8589934593\<close> bytes, more than an \<^verbatim>\<open>int\<close> holds: the
  product of line 58 is undefined, and so are the sizing loop and the call. On
  32-bit words the product is 1: the sizing loop gives \<open>bufsize = 1\<close>, not that
  maximum, line 65 makes a scratch buffer of 2 bytes, line 98 gives
  \<open>max_index = 1\<close>, and the first copy of line 100 writes the 9 bytes of the
  string at offset 0, past \<open>bufsize\<close> and past the buffer.
\<close>

theorem stri_dup_writes_past_scratch:
  "dup_need chars [Some \<lparr>chars = ''abcdefghi'', enc = CE_UTF8\<rparr>] [954437177] 0 = 8589934593
   \<and> for_each [0..<1]
       (dup_bufsize_body chars [Some \<lparr>chars = ''abcdefghi'', enc = CE_UTF8\<rparr>] [954437177]) 0
     = Inl IntOverflow
   \<and> stri_dup chars junk [0] [Some \<lparr>chars = ''abcdefghi'', enc = CE_UTF8\<rparr>] [954437177]
     = Inl IntOverflow
   \<and> for_each [0..<1]
       (dup_bufsize_body_w chars [Some \<lparr>chars = ''abcdefghi'', enc = CE_UTF8\<rparr>] [954437177]) 0
     = Inr 1
   \<and> length (new_chars junk (sint (1 + 1 :: 32 word))) = 2
   \<and> (word_of_nat (length ''abcdefghi'') :: 32 word) * 954437177 = 1
   \<and> memcpy (new_chars junk (sint (1 + 1 :: 32 word))) 0 ''abcdefghi'' 9 = Inl OutOfBounds
   \<and> dup_body_w chars [Some \<lparr>chars = ''abcdefghi'', enc = CE_UTF8\<rparr>] [954437177] 0
       (allocVector 1, new_chars junk (sint (1 + 1 :: 32 word)), None, 0)
     = Inl OutOfBounds
   \<and> stri_dup_w chars junk [0] [Some \<lparr>chars = ''abcdefghi'', enc = CE_UTF8\<rparr>] [954437177]
     = Inl OutOfBounds"
proof -
  let ?s = "[Some \<lparr>chars = ''abcdefghi'', enc = CE_UTF8\<rparr>]"
  let ?c = "[954437177] :: 32 word list"
  have a: "dup_need chars ?s ?c 0 = 8589934593" by code_simp
  have b: "for_each [0..<1] (dup_bufsize_body chars ?s ?c) 0 = Inl IntOverflow" by code_simp
  have c: "stri_dup chars junk [0] ?s ?c = Inl IntOverflow" by code_simp
  have d: "for_each [0..<1] (dup_bufsize_body_w chars ?s ?c) 0 = Inr 1" by code_simp
  have e: "length (new_chars junk (sint (1 + 1 :: 32 word))) = 2" by (simp add: new_chars_def)
  have f: "memcpy (new_chars junk (sint (1 + 1 :: 32 word))) 0 ''abcdefghi'' 9 = Inl OutOfBounds"
    by (simp add: memcpy_def new_chars_def)
  have g: "stri_dup_w chars junk [0] ?s ?c = Inl OutOfBounds" by code_simp
  have h: "(word_of_nat (length ''abcdefghi'') :: 32 word) * 954437177 = 1" by simp
  have k: "dup_body_w chars ?s ?c 0
      (allocVector 1, new_chars junk (sint (1 + 1 :: 32 word)), None, 0) = Inl OutOfBounds"
    by code_simp
  from a b c d e f g h k show ?thesis by blast
qed

section \<open>Operands of length 0\<close>

text \<open>
  Claim C4, as amended. Duplicate with an operand of length 0 returns the
  sequence of length 0. PairJoin with a first operand of length 0 returns the
  second operand, and with a second operand of length 0 the first operand: its
  result has length 0 only when both operands have.
\<close>

theorem empty_operand_results:
  "(length s = 0 \<or> length c = 0 \<longrightarrow> stri_dup conv junk ord s c = Inr []) \<and>
   (length s1 = 0 \<longrightarrow> stri_join2 junk s1 s2 = Inr s2) \<and>
   (length s2 = 0 \<longrightarrow> stri_join2 junk s1 s2 = Inr s1)"
  by (auto simp: stri_dup_def stri_join2_def stri__recycling_rule_def allocVector_def Let_def)

theorem empty_operand_results_witness:
  "stri_dup chars char_of [] [] [3] = Inr [] \<and>
   stri_join2 char_of [] [Some \<lparr>chars = ''x'', enc = CE_UTF8\<rparr>]
     = Inr [Some \<lparr>chars = ''x'', enc = CE_UTF8\<rparr>] \<and>
   stri_join2 char_of [Some \<lparr>chars = ''x'', enc = CE_UTF8\<rparr>] []
     = Inr [Some \<lparr>chars = ''x'', enc = CE_UTF8\<rparr>]"
  using empty_operand_results [where s = "[]" and c = "[3]" and conv = chars and junk = char_of
      and ord = "[]" and ?s1.0 = "[]" and ?s2.0 = "[Some \<lparr>chars = ''x'', enc = CE_UTF8\<rparr>]"]
    empty_operand_results [where s = "[]" and c = "[3]" and conv = chars and junk = char_of
      and ord = "[]" and ?s1.0 = "[Some \<lparr>chars = ''x'', enc = CE_UTF8\<rparr>]" and ?s2.0 = "[]"]
  by simp

text \<open>
  Claim C4 as it is stated fails for PairJoin: \<open>join2([], ["x"])\<close> is \<open>["x"]\<close>, of
  length 1.
\<close>

theorem join2_empty_operand_counterexample:
  "stri_join2 char_of [] [Some \<lparr>chars = ''x'', enc = CE_UTF8\<rparr>]
     = Inr [Some \<lparr>chars = ''x'', enc = CE_UTF8\<rparr>]
   \<and> length [Some \<lparr>chars = ''x'', enc = CE_UTF8\<rparr>] = 1"
  by (simp add: stri_join2_def)

section \<open>PairJoin: the claims\<close>



section \<open>The encoding of what is emitted\<close>

lemma valid_utf8_append:
  "valid_utf8 xs \<Longrightarrow> valid_utf8 ys \<Longrightarrow> valid_utf8 (xs @ ys)"
proof (induction xs rule: valid_utf8.induct)
  case 1
  then show ?case by simp
next
  case (2 b0 bs)
  from "2.prems"(1) show ?case
    using "2.IH" "2.prems"(2)
    by (auto simp: Let_def split: if_splits list.splits)
qed

lemma valid_utf8_concat:
  "\<forall>x\<in>set xss. valid_utf8 x \<Longrightarrow> valid_utf8 (concat xss)"
  by (induction xss) (simp_all add: valid_utf8_append)


text \<open>
  The strings \<^verbatim>\<open>stri_dup\<close> and \<^verbatim>\<open>stri_flatten\<close> emit are valid UTF-8 as far as
  the container's conversion gives valid UTF-8; those of \<^verbatim>\<open>stri_join2\<close> are when
  the bytes of its operands already are.
\<close>

lemma stri_dup_valid_utf8:
  assumes conv: "\<And>x. valid_utf8 (conv x)"
    and run: "stri_dup conv junk ord s c = Inr r"
    and ord: "set ord = {0..<stri__recycling_rule (length s) (length c)}"
  shows "\<forall>y. Some y \<in> set r \<longrightarrow> valid_utf8 (chars y)"
proof (intro allI impI)
  fix y
  assume "Some y \<in> set r"
  with stri_dup_result [OF run ord] obtain i where "dup_naive_slot conv s c i = Some y"
    by (auto simp: dup_naive_def)
  then have "chars y = [] \<or> (\<exists>k x. chars y = concat (replicate k (conv x)))"
    by (fastforce simp: dup_naive_slot_def Let_def split: option.splits if_splits)
  moreover have "valid_utf8 (concat (replicate k (conv x)))" for k x
    by (rule valid_utf8_concat) (simp add: conv)
  ultimately show "valid_utf8 (chars y)" by auto
qed

lemma stri_flatten_valid_utf8:
  assumes conv: "\<And>x. valid_utf8 (conv x)"
    and run: "snd (stri_flatten conv junk s sep) = Inr r"
  shows "\<forall>y. Some y \<in> set r \<longrightarrow> valid_utf8 (chars y)"
proof (cases "s = [] \<or> sep = []")
  case True
  with run show ?thesis
    by (auto simp: stri_flatten_def stri__vector_empty_strings_def)
next
  case False
  then have ne: "s \<noteq> []" "sep \<noteq> []" by simp_all
  show ?thesis
  proof (cases "sep ! 0")
    case None
    with run show ?thesis by (auto simp: stri_flatten_nonempty [OF ne])
  next
    case (Some x)
    with run have run1: "snd (stri_flatten conv junk s [Some x]) = Inr r"
      by (simp add: stri_flatten_nonempty [OF ne])
    show ?thesis
    proof (cases "None \<in> set s")
      case True
      then obtain i where i: "i < length s" "s ! i = None" by (auto simp: in_set_conv_nth)
      from run1 obtain res where
        sz: "flatten_nchar conv s (int (length (conv x))) [0..<length s] 0 = Inr res"
        unfolding stri_flatten_single [OF ne(1)] by (auto split: sum.splits)
      have "res = None"
      proof (cases res)
        case (Some nchar)
        from flatten_nchar_Some [OF sz [unfolded Some]] have "\<not> isNA s i" using i(1) by simp
        with i show ?thesis by (simp add: isNA_nth)
      qed simp
      with sz run1 show ?thesis by (auto simp: stri_flatten_single [OF ne(1)])
    next
      case False
      then have "\<forall>e\<in>set s. e \<noteq> None" by metis
      from stri_flatten_joined [OF ne(1) this run1]
      have r: "r = [Some \<lparr>chars = concat (map (flatten_piece conv s (conv x)) [0..<length s]),
                           enc = CE_UTF8\<rparr>]" .
      have "valid_utf8 (flatten_piece conv s (conv x) i)" for i
        using conv by (auto simp: flatten_piece_def get_def intro: valid_utf8_append
            split: option.splits)
      then have "valid_utf8 (concat (map (flatten_piece conv s (conv x)) [0..<length s]))"
        by (intro valid_utf8_concat) simp
      then show ?thesis unfolding r by simp
    qed
  qed
qed

lemma stri_join2_valid_utf8:
  assumes ops: "\<forall>x. Some x \<in> set a \<union> set b \<longrightarrow> valid_utf8 (chars x)"
    and run: "stri_join2 junk a b = Inr r"
  shows "\<forall>y. Some y \<in> set r \<longrightarrow> valid_utf8 (chars y)"
proof (cases "a = [] \<or> b = []")
  case True
  with run have "r = a \<or> r = b" by (auto simp: stri_join2_def Let_def split: if_splits)
  with ops show ?thesis by auto
next
  case False
  then have ne: "a \<noteq> []" "b \<noteq> []" by simp_all
  show ?thesis
  proof (intro allI impI)
    fix y
    assume "Some y \<in> set r"
    with stri_join2_result [OF run ne] obtain i where slot: "join2_slot a b i = Some y"
      by auto
    then obtain x z where xz: "a ! (i mod length a) = Some x" "b ! (i mod length b) = Some z"
      and y: "chars y = chars x @ chars z"
      by (auto simp: join2_slot_def split: option.splits)
    from ne have "i mod length a < length a" "i mod length b < length b" by simp_all
    with xz have "Some x \<in> set a" "Some z \<in> set b" by (metis nth_mem)+
    with ops show "valid_utf8 (chars y)" unfolding y by (auto intro: valid_utf8_append)
  qed
qed

text \<open>
  Claim C3 fails on the code: \<^verbatim>\<open>stri_join2\<close> copies the bytes \<^verbatim>\<open>CHAR\<close> gives,
  whatever the encoding of its operands, and marks the result native (its doc
  comment says \<^verbatim>\<open>TO DO: Encoding!!!\<close>), where \<^verbatim>\<open>stri_dup\<close> and \<^verbatim>\<open>stri_flatten\<close>
  read their operand through the UTF-8 container. Joining the Latin-1 string of
  the one byte E9 with \<open>"a"\<close> gives the bytes E9 61, which are not UTF-8.
\<close>

theorem stri_join2_latin1_not_utf8:
  "stri_join2 junk [Some \<lparr>chars = [CHR 0xE9], enc = CE_LATIN1\<rparr>]
                   [Some \<lparr>chars = ''a'', enc = CE_NATIVE\<rparr>]
     = Inr [Some \<lparr>chars = [CHR 0xE9, CHR ''a''], enc = CE_NATIVE\<rparr>]
   \<and> \<not> valid_utf8 [CHR 0xE9, CHR ''a'']"
proof -
  have "stri_join2 junk [Some \<lparr>chars = [CHR 0xE9], enc = CE_LATIN1\<rparr>]
                   [Some \<lparr>chars = ''a'', enc = CE_NATIVE\<rparr>]
     = Inr [Some \<lparr>chars = [CHR 0xE9, CHR ''a''], enc = CE_NATIVE\<rparr>]"
    by code_simp
  moreover have "\<not> valid_utf8 [CHR 0xE9, CHR ''a'']"
    by code_simp
  ultimately show ?thesis by simp
qed

section \<open>Flatten: the claims\<close>

text \<open>
  Claim C7. For \<open>s\<close> not empty with no null element and a single separator that
  is not null, \<^verbatim>\<open>stri_flatten\<close> gives no warning, and whatever it returns is the
  sequence of length 1 whose string, marked UTF-8, is the first element
  followed, for each further element, by the separator and that element; it
  does return it whenever that string's byte length can be counted in an
  \<^verbatim>\<open>int\<close>. The byte length is the sum of the elements' byte lengths plus
  \<open>len(s) - 1\<close> times the separator's; with the empty separator the string is
  the concatenation of the elements. Elements and separator are the container's
  UTF-8 bytes.
\<close>

theorem stri_flatten_joins:
  assumes "s \<noteq> []"
    and "\<forall>e\<in>set s. e \<noteq> None"
  shows "fst (stri_flatten conv junk s [Some x]) = [] \<and>
    (\<forall>r. snd (stri_flatten conv junk s [Some x]) = Inr r \<longrightarrow>
       r = [Some \<lparr>chars = hd (map (get conv s) [0..<length s])
                           @ concat (map ((@) (conv x)) (tl (map (get conv s) [0..<length s]))),
                   enc = CE_UTF8\<rparr>]) \<and>
    (int (sum_list (map length (map (get conv s) [0..<length s])))
        + (int (length s) - 1) * int (length (conv x)) \<le> INT_MAX \<longrightarrow>
     snd (stri_flatten conv junk s [Some x]) =
       Inr [Some \<lparr>chars = hd (map (get conv s) [0..<length s])
                           @ concat (map ((@) (conv x)) (tl (map (get conv s) [0..<length s]))),
                   enc = CE_UTF8\<rparr>]) \<and>
    length (hd (map (get conv s) [0..<length s])
             @ concat (map ((@) (conv x)) (tl (map (get conv s) [0..<length s]))))
      = sum_list (map length (map (get conv s) [0..<length s]))
          + (length s - 1) * length (conv x) \<and>
    (conv x = [] \<longrightarrow>
       hd (map (get conv s) [0..<length s])
         @ concat (map ((@) (conv x)) (tl (map (get conv s) [0..<length s])))
       = concat (map (get conv s) [0..<length s]))"
proof -
  from assms(1) obtain m where m: "length s = Suc m" by (cases s) simp_all
  let ?xs = "map (get conv s) [0..<length s]"
  let ?joined = "hd ?xs @ concat (map ((@) (conv x)) (tl ?xs))"
  let ?pieces = "concat (map (flatten_piece conv s (conv x)) [0..<length s])"
  have hd: "hd ?xs = get conv s 0" unfolding m by (simp add: upt_conv_Cons del: upt_Suc)
  have tl: "tl ?xs = map (get conv s) [1..<length s]"
    unfolding m by (simp add: upt_conv_Cons map_tl del: upt_Suc)
  have "?pieces = get conv s 0 @ concat (map (\<lambda>i. conv x @ get conv s i) [1..<length s])"
    unfolding flatten_piece_def m by (rule pieces_joined)
  also have "\<dots> = ?joined"
    unfolding hd tl by (simp add: comp_def)
  finally have pieces: "?pieces = ?joined" .
  have split: "?xs = hd ?xs # tl ?xs" unfolding m by (simp add: upt_conv_Cons del: upt_Suc)
  have len: "length ?joined = sum_list (map length ?xs) + (length s - 1) * length (conv x)"
  proof -
    from split have "sum_list (map length ?xs) = length (hd ?xs) + sum_list (map length (tl ?xs))"
      by (metis list.simps(9) sum_list.Cons)
    moreover have "length (tl ?xs) = length s - 1" by simp
    ultimately show ?thesis by (simp add: length_joined)
  qed
  have plain: "?joined = concat ?xs" if "conv x = []"
  proof -
    from split have "concat ?xs = hd ?xs @ concat (tl ?xs)" by (metis concat.simps(2))
    moreover have "map ((@) []) (tl ?xs) = tl ?xs" by (induction "tl ?xs") simp_all
    ultimately show ?thesis using that by simp
  qed
  have quiet: "fst (stri_flatten conv junk s [Some x]) = []"
    by (simp add: stri_flatten_single [OF assms(1)])
  have partial: "r = [Some \<lparr>chars = ?joined, enc = CE_UTF8\<rparr>]"
    if "snd (stri_flatten conv junk s [Some x]) = Inr r" for r
    using stri_flatten_joined [OF assms that] pieces by simp
  have total: "snd (stri_flatten conv junk s [Some x]) = Inr [Some \<lparr>chars = ?joined, enc = CE_UTF8\<rparr>]"
    if fits: "int (sum_list (map length ?xs)) + (int (length s) - 1) * int (length (conv x))
                \<le> INT_MAX"
  proof -
    have "int (length s - 1) = int (length s) - 1" using m by simp
    then have "int (length ?joined)
        = int (sum_list (map length ?xs)) + (int (length s) - 1) * int (length (conv x))"
      by (simp only: len of_nat_add of_nat_mult)
    with fits have "int (length ?pieces) \<le> INT_MAX" by (simp only: pieces)
    from stri_flatten_returns [OF assms this, of junk] pieces show ?thesis by simp
  qed
  from quiet partial total len plain show ?thesis by blast
qed

text \<open>
  The sixth scenario of spec 8: alpha, beta, gamma joined by \<open>"-"\<close> are the bytes
  CE B1 2D CE B2 2D CE B3.
\<close>

theorem stri_flatten_joins_witness:
  "snd (stri_flatten chars char_of
      [Some \<lparr>chars = [CHR 0xCE, CHR 0xB1], enc = CE_UTF8\<rparr>,
       Some \<lparr>chars = [CHR 0xCE, CHR 0xB2], enc = CE_UTF8\<rparr>,
       Some \<lparr>chars = [CHR 0xCE, CHR 0xB3], enc = CE_UTF8\<rparr>]
      [Some \<lparr>chars = ''-'', enc = CE_UTF8\<rparr>])
     = Inr [Some \<lparr>chars = [CHR 0xCE, CHR 0xB1, CHR 0x2D, CHR 0xCE, CHR 0xB2, CHR 0x2D,
                            CHR 0xCE, CHR 0xB3], enc = CE_UTF8\<rparr>]
   \<and> fst (stri_flatten chars char_of
      [Some \<lparr>chars = [CHR 0xCE, CHR 0xB1], enc = CE_UTF8\<rparr>,
       Some \<lparr>chars = [CHR 0xCE, CHR 0xB2], enc = CE_UTF8\<rparr>,
       Some \<lparr>chars = [CHR 0xCE, CHR 0xB3], enc = CE_UTF8\<rparr>]
      [Some \<lparr>chars = ''-'', enc = CE_UTF8\<rparr>]) = []"
proof -
  let ?s = "[Some \<lparr>chars = [CHR 0xCE, CHR 0xB1], enc = CE_UTF8\<rparr>,
       Some \<lparr>chars = [CHR 0xCE, CHR 0xB2], enc = CE_UTF8\<rparr>,
       Some \<lparr>chars = [CHR 0xCE, CHR 0xB3], enc = CE_UTF8\<rparr>]"
  let ?x = "\<lparr>chars = ''-'', enc = CE_UTF8\<rparr>"
  have ne: "?s \<noteq> []" by simp
  have nonnull: "\<forall>e\<in>set ?s. e \<noteq> None" by simp
  have run: "snd (stri_flatten chars char_of ?s [Some ?x])
     = Inr [Some \<lparr>chars = [CHR 0xCE, CHR 0xB1, CHR 0x2D, CHR 0xCE, CHR 0xB2, CHR 0x2D,
                            CHR 0xCE, CHR 0xB3], enc = CE_UTF8\<rparr>]"
    by code_simp
  from stri_flatten_joins [OF ne nonnull, of chars char_of ?x] run show ?thesis by blast
qed

text \<open>
  Claim C8. For \<open>s\<close> not empty: with a separator given, if the separator (the
  first element of \<open>sep\<close>) is null, \<^verbatim>\<open>stri_flatten\<close> returns the sequence of
  the one null; and if an element of \<open>s\<close> is null, whatever \<^verbatim>\<open>stri_flatten\<close>
  returns is the sequence of the one null, decided by the sizing loop, which
  leaves the function (the value \<open>Inr None\<close>) before the buffer is made or a
  byte is written; and it does return it when the byte lengths of the elements
  and separators together fit an \<^verbatim>\<open>int\<close>. The form with no separator,
  \<^verbatim>\<open>stri_flatten_nosep\<close>, does the same at a null element.
\<close>

theorem stri_flatten_null:
  assumes "s \<noteq> []"
  shows "(sep \<noteq> [] \<longrightarrow> sep ! 0 = None \<longrightarrow> snd (stri_flatten conv junk s sep) = Inr [None]) \<and>
    (sep \<noteq> [] \<longrightarrow> None \<in> set s \<longrightarrow>
       (\<forall>r. snd (stri_flatten conv junk s sep) = Inr r \<longrightarrow> r = [None])) \<and>
    (sep \<noteq> [] \<longrightarrow> None \<in> set s \<longrightarrow> sep ! 0 \<noteq> None \<longrightarrow>
       (\<forall>r. snd (stri_flatten conv junk s sep) = Inr r \<longrightarrow>
          flatten_nchar conv s (int (length (get conv [sep ! 0] 0))) [0..<length s] 0
            = Inr None)) \<and>
    (sep \<noteq> [] \<longrightarrow> None \<in> set s \<longrightarrow>
       int (length (concat (map (flatten_piece conv s (get conv [sep ! 0] 0)) [0..<length s])))
         \<le> INT_MAX \<longrightarrow>
       snd (stri_flatten conv junk s sep) = Inr [None]) \<and>
    (None \<in> set s \<longrightarrow>
       (\<forall>r. stri_flatten_nosep conv junk s = Inr r \<longrightarrow>
          r = [None] \<and> flatten_nosep_nchar conv s [0..<length s] 0 = Inr None)) \<and>
    (None \<in> set s \<longrightarrow>
       int (length (concat (map (get conv s) [0..<length s]))) \<le> INT_MAX \<longrightarrow>
       stri_flatten_nosep conv junk s = Inr [None])"
proof -
  have sized: "flatten_nchar conv s (int (length (conv x))) [0..<length s] 0 = Inr None"
    if null: "None \<in> set s" and run: "snd (stri_flatten conv junk s [Some x]) = Inr r"
    for x r
  proof -
    from run obtain res where
      sz: "flatten_nchar conv s (int (length (conv x))) [0..<length s] 0 = Inr res"
      unfolding stri_flatten_single [OF assms] by (auto split: sum.splits)
    with flatten_nchar_null [OF null sz] show ?thesis by simp
  qed
  have a: "snd (stri_flatten conv junk s sep) = Inr [None]" if "sep \<noteq> []" "sep ! 0 = None"
    using that by (simp add: stri_flatten_nonempty [OF assms])
  have b: "r = [None]"
    if ne: "sep \<noteq> []" and null: "None \<in> set s"
      and run: "snd (stri_flatten conv junk s sep) = Inr r" for r
  proof (cases "sep ! 0")
    case None
    with a [OF ne] run show ?thesis by simp
  next
    case (Some x)
    with run have run': "snd (stri_flatten conv junk s [Some x]) = Inr r"
      by (simp add: stri_flatten_nonempty [OF assms ne])
    from sized [OF null run'] run' show ?thesis
      by (simp add: stri_flatten_single [OF assms])
  qed
  have c: "flatten_nchar conv s (int (length (get conv [sep ! 0] 0))) [0..<length s] 0 = Inr None"
    if ne: "sep \<noteq> []" and null: "None \<in> set s" and sp: "sep ! 0 \<noteq> None"
      and run: "snd (stri_flatten conv junk s sep) = Inr r" for r
  proof -
    from sp obtain x where x: "sep ! 0 = Some x" by auto
    with run have "snd (stri_flatten conv junk s [Some x]) = Inr r"
      by (simp add: stri_flatten_nonempty [OF assms ne])
    from sized [OF null this] show ?thesis by (simp add: x)
  qed
  have d: "r = [None] \<and> flatten_nosep_nchar conv s [0..<length s] 0 = Inr None"
    if null: "None \<in> set s" and run: "stri_flatten_nosep conv junk s = Inr r" for r
  proof -
    from run assms obtain res where
      sz: "flatten_nosep_nchar conv s [0..<length s] 0 = Inr res"
      by (auto simp: stri_flatten_nosep_def Let_def split: sum.splits)
    from flatten_nosep_nchar_null [OF null sz] have res: "res = None" .
    with sz run assms show ?thesis
      by (simp add: stri_flatten_nosep_def Let_def stri__vector_NA_strings_def)
  qed
  have e: "snd (stri_flatten conv junk s sep) = Inr [None]"
    if ne: "sep \<noteq> []" and null: "None \<in> set s"
      and fits: "int (length (concat (map (flatten_piece conv s (get conv [sep ! 0] 0))
                   [0..<length s]))) \<le> INT_MAX"
  proof (cases "sep ! 0")
    case None
    with a [OF ne] show ?thesis by simp
  next
    case (Some x)
    with fits have "stri_flatten conv junk s [Some x] = ([], Inr [None])"
      by (intro stri_flatten_null_returns [OF assms null]) simp
    with Some show ?thesis by (simp add: stri_flatten_nonempty [OF assms ne])
  qed
  have f: "stri_flatten_nosep conv junk s = Inr [None]"
    if "None \<in> set s" "int (length (concat (map (get conv s) [0..<length s]))) \<le> INT_MAX"
    using that by (rule stri_flatten_nosep_null_returns [OF assms])
  from a b c d e f show ?thesis by blast
qed

text \<open>
  The seventh scenario of spec 8, \<open>flatten(["a", null, "b"], ",")\<close>, the same
  sequence with no separator, and a null separator.
\<close>

theorem stri_flatten_null_witness:
  "snd (stri_flatten chars char_of
      [Some \<lparr>chars = ''a'', enc = CE_UTF8\<rparr>, None, Some \<lparr>chars = ''b'', enc = CE_UTF8\<rparr>]
      [Some \<lparr>chars = '','', enc = CE_UTF8\<rparr>]) = Inr [None]
   \<and> flatten_nchar chars
      [Some \<lparr>chars = ''a'', enc = CE_UTF8\<rparr>, None, Some \<lparr>chars = ''b'', enc = CE_UTF8\<rparr>]
      (int (length (get chars [[Some \<lparr>chars = '','', enc = CE_UTF8\<rparr>] ! 0] 0)))
      [0..<length [Some \<lparr>chars = ''a'', enc = CE_UTF8\<rparr>, None,
                   Some \<lparr>chars = ''b'', enc = CE_UTF8\<rparr>]] 0 = Inr None
   \<and> snd (stri_flatten chars char_of [Some \<lparr>chars = ''a'', enc = CE_UTF8\<rparr>] [None])
       = Inr [None]
   \<and> stri_flatten_nosep chars char_of
      [Some \<lparr>chars = ''a'', enc = CE_UTF8\<rparr>, None, Some \<lparr>chars = ''b'', enc = CE_UTF8\<rparr>]
       = Inr [None]"
proof -
  let ?s = "[Some \<lparr>chars = ''a'', enc = CE_UTF8\<rparr>, None, Some \<lparr>chars = ''b'', enc = CE_UTF8\<rparr>]"
  let ?sep = "[Some \<lparr>chars = '','', enc = CE_UTF8\<rparr>]"
  have ne: "?s \<noteq> []" and sne: "?sep \<noteq> []" by simp_all
  have null: "None \<in> set ?s" by simp
  have sp: "?sep ! 0 \<noteq> None" by simp
  have fits: "int (length (concat (map (flatten_piece chars ?s (get chars [?sep ! 0] 0))
      [0..<length ?s]))) \<le> INT_MAX"
    by code_simp
  have fits2: "int (length (concat (map (get chars ?s) [0..<length ?s]))) \<le> INT_MAX"
    by code_simp
  have ne': "[Some \<lparr>chars = ''a'', enc = CE_UTF8\<rparr>] \<noteq> []"
    and sne': "[None :: charsxp option] \<noteq> []"
    by simp_all
  have sp': "[None :: charsxp option] ! 0 = None" by simp
  note main = stri_flatten_null [OF ne, of ?sep chars char_of]
  from main sne null fits have run: "snd (stri_flatten chars char_of ?s ?sep) = Inr [None]"
    by blast
  from main null fits2 have run2: "stri_flatten_nosep chars char_of ?s = Inr [None]"
    by blast
  from main sne null sp run run2
    stri_flatten_null [OF ne', of "[None]" chars char_of] sne' sp'
  show ?thesis by blast
qed

text \<open>
  Claim C9. For \<open>s\<close> not empty and a separator sequence of more than one
  element, \<^verbatim>\<open>stri_flatten\<close> gives exactly one warning, \<^verbatim>\<open>COLLAPSE_EXPECTED1\<close>, and
  the result (or the failure) of \<^verbatim>\<open>stri_flatten\<close> on the first separator alone,
  a call that gives no warning.
\<close>

theorem stri_flatten_first_separator:
  assumes "s \<noteq> []" and "1 < length sep"
  shows "stri_flatten conv junk s sep
           = ([MSG__COLLAPSE_EXPECTED1], snd (stri_flatten conv junk s [sep ! 0]))
       \<and> fst (stri_flatten conv junk s [sep ! 0]) = []"
proof -
  from assms(2) have ne: "sep \<noteq> []" by auto
  have one: "[sep ! 0] \<noteq> []" by simp
  show ?thesis
    unfolding stri_flatten_nonempty [OF assms(1) ne] stri_flatten_nonempty [OF assms(1) one]
    using assms(2) by (simp split: option.splits)
qed

theorem stri_flatten_first_separator_witness:
  "stri_flatten chars char_of
      [Some \<lparr>chars = ''a'', enc = CE_UTF8\<rparr>, Some \<lparr>chars = ''bc'', enc = CE_UTF8\<rparr>]
      [Some \<lparr>chars = ''--'', enc = CE_UTF8\<rparr>, None]
     = ([MSG__COLLAPSE_EXPECTED1], Inr [Some \<lparr>chars = ''a--bc'', enc = CE_UTF8\<rparr>])"
proof -
  let ?s = "[Some \<lparr>chars = ''a'', enc = CE_UTF8\<rparr>, Some \<lparr>chars = ''bc'', enc = CE_UTF8\<rparr>]"
  let ?sep = "[Some \<lparr>chars = ''--'', enc = CE_UTF8\<rparr>, None]"
  have ne: "?s \<noteq> []" and many: "1 < length ?sep" by simp_all
  have one: "snd (stri_flatten chars char_of ?s [?sep ! 0])
      = Inr [Some \<lparr>chars = ''a--bc'', enc = CE_UTF8\<rparr>]"
    by code_simp
  from stri_flatten_first_separator [OF ne many, of chars char_of] one
  show ?thesis by simp
qed

text \<open>
  Claim C10. If \<open>s\<close> or the separator sequence has length 0, \<^verbatim>\<open>stri_flatten\<close>
  returns the sequence of length 0 and gives no warning: so for a separator
  sequence of length 0 and \<open>s\<close> not empty, and so for \<open>s\<close> of length 0 whatever the
  separators are, several or null.
\<close>

theorem stri_flatten_empty_operand:
  assumes "length s = 0 \<or> length sep = 0"
  shows "stri_flatten conv junk s sep = ([], Inr [])"
  using assms by (auto simp: stri_flatten_def stri__vector_empty_strings_def)

text \<open>
  An empty \<open>s\<close> with two null separators, and an empty separator sequence with
  \<open>s\<close> not empty: no warning, no null, length 0.
\<close>

theorem stri_flatten_empty_operand_witness:
  "stri_flatten chars char_of [] [None, None] = ([], Inr [])
   \<and> stri_flatten chars char_of [Some \<lparr>chars = ''a'', enc = CE_UTF8\<rparr>] [] = ([], Inr [])"
proof -
  have a: "length ([] :: strsxp) = 0 \<or> length [None :: charsxp option, None] = 0" by simp
  have b: "length [Some \<lparr>chars = ''a'', enc = CE_UTF8\<rparr>] = 0 \<or> length ([] :: strsxp) = 0"
    by simp
  from stri_flatten_empty_operand [OF a, of chars char_of]
    stri_flatten_empty_operand [OF b, of chars char_of]
  show ?thesis by simp
qed

end
